theory Spec2Isabelle
  imports Main "HOL-Library.Multiset" "HOL-Library.Sublist" "HOL-Library.Code_Target_Nat"
begin

section \<open>Strings and numbers of the plugin\<close>

text \<open>
  A JavaScript string is a sequence of UTF-16 code units. The regular expressions of the
  plugin carry no \<open>u\<close> flag, so they work on code units, and every code unit is modelled
  as its number. ASCII text is written with \<open>js\<close>; the emoji of the source are given by
  their code units. Numbers are modelled as unbounded integers. A JavaScript number is
  a double: \<open>parseInt\<close>, \<open>+ 1\<close>, \<open>- 1\<close>, \<open>Math.max\<close> and the template conversion of
  a number are exact on integers of magnitude below \<open>2 ^ 53\<close> and round or change
  notation beyond. The model describes the code on that range only, and every general
  statement about a number that is parsed or printed carries the bound \<open>2 ^ 53\<close> as a
  hypothesis.
\<close>

type_synonym jsstring = "nat list"

definition js :: "string \<Rightarrow> jsstring" where
  "js s = map of_char s"

section \<open>Regular expressions\<close>

text \<open>
  The character classes of the source: \<open>\d\<close>, \<open>\s\<close> and \<open>[^\]\s]\<close>. Without the
  \<open>u\<close> flag \<open>\d\<close> is the ten ASCII digits and \<open>\s\<close> is the white space and line
  terminator code units of ECMAScript, which are also what \<open>trim\<close> removes.
\<close>

datatype cclass = Digit | Space | NotCloseOrSpace

definition is_digit :: "nat \<Rightarrow> bool" where
  "is_digit c = (48 \<le> c \<and> c \<le> 57)"

definition is_space :: "nat \<Rightarrow> bool" where
  "is_space c =
     ((9 \<le> c \<and> c \<le> 13) \<or> c = 32 \<or> c = 160 \<or> c = 5760 \<or> (8192 \<le> c \<and> c \<le> 8202)
      \<or> c = 8232 \<or> c = 8233 \<or> c = 8239 \<or> c = 8287 \<or> c = 12288 \<or> c = 65279)"

fun in_cls :: "cclass \<Rightarrow> nat \<Rightarrow> bool" where
  "in_cls Digit c = is_digit c"
| "in_cls Space c = is_space c"
| "in_cls NotCloseOrSpace c = (c \<noteq> 93 \<and> \<not> is_space c)"

text \<open>
  Under the \<open>i\<close> flag two code units match when their canonical forms agree. Every
  literal that the source matches under that flag is ASCII, and a code unit beyond ASCII
  never canonicalises to an ASCII one, so upper-casing the ASCII letters is exact here.
\<close>

definition canon :: "nat \<Rightarrow> nat" where
  "canon c = (if 97 \<le> c \<and> c \<le> 122 then c - 32 else c)"

datatype rx =
    Lit jsstring
  | LitI jsstring
  | Cls cclass
  | Many cclass
  | Seq rx rx
  | Alt rx rx
  | Cap rx
  | Eol

text \<open>
  A backtracking matcher anchored at the head of the input: all ways to match, in the
  order in which the ECMAScript matcher tries them (greedy repetition first, the left
  alternative first), each with its captures and the input left over. The head of the
  list is the match JavaScript reports at this position.
\<close>

fun rmatch :: "rx \<Rightarrow> jsstring \<Rightarrow> (jsstring list \<times> jsstring) list" where
  "rmatch (Lit l) s = (if take (length l) s = l then [([], drop (length l) s)] else [])"
| "rmatch (LitI l) s =
     (if map canon (take (length l) s) = map canon l then [([], drop (length l) s)] else [])"
| "rmatch (Cls k) [] = []"
| "rmatch (Cls k) (x # xs) = (if in_cls k x then [([], xs)] else [])"
| "rmatch (Many k) [] = [([], [])]"
| "rmatch (Many k) (x # xs) =
     (if in_cls k x then rmatch (Many k) xs @ [([], x # xs)] else [([], x # xs)])"
| "rmatch (Seq a b) s =
     concat (map (\<lambda>(c1, r1). map (\<lambda>(c2, r2). (c1 @ c2, r2)) (rmatch b r1)) (rmatch a s))"
| "rmatch (Alt a b) s = rmatch a s @ rmatch b s"
| "rmatch (Cap a) s = map (\<lambda>(c, r). (take (length s - length r) s # c, r)) (rmatch a s)"
| "rmatch Eol s = (if s = [] then [([], [])] else [])"

text \<open>
  \<open>exec\<close>: the leftmost position with a match. The result is the text before the match,
  the captures, and the text after the match.
\<close>

fun rsearch ::
  "rx \<Rightarrow> jsstring \<Rightarrow> jsstring \<Rightarrow> (jsstring \<times> jsstring list \<times> jsstring) option" where
  "rsearch r pre [] =
     (case rmatch r [] of (caps, rest) # _ \<Rightarrow> Some (pre, caps, rest) | [] \<Rightarrow> None)"
| "rsearch r pre (x # xs) =
     (case rmatch r (x # xs) of
        (caps, rest) # _ \<Rightarrow> Some (pre, caps, rest)
      | [] \<Rightarrow> rsearch r (pre @ [x]) xs)"

definition exec :: "rx \<Rightarrow> jsstring \<Rightarrow> (jsstring \<times> jsstring list \<times> jsstring) option" where
  "exec r s = rsearch r [] s"

definition test :: "rx \<Rightarrow> jsstring \<Rightarrow> bool" where
  "test r s = (exec r s \<noteq> None)"

text \<open>\<open>r.exec(s)?.[1]\<close>: the first capture of the leftmost match, if there is a match.\<close>

definition capture1 :: "rx \<Rightarrow> jsstring \<Rightarrow> jsstring option" where
  "capture1 r s = (case exec r s of Some (_, c # _, _) \<Rightarrow> Some c | _ \<Rightarrow> None)"

text \<open>\<open>s.replace(r, f)\<close> without the \<open>g\<close> flag: the leftmost match is replaced.\<close>

definition replace_first :: "rx \<Rightarrow> (jsstring list \<Rightarrow> jsstring) \<Rightarrow> jsstring \<Rightarrow> jsstring" where
  "replace_first r f s =
     (case exec r s of None \<Rightarrow> s | Some (pre, caps, rest) \<Rightarrow> pre @ f caps @ rest)"

text \<open>
  \<open>s.replace(r, rep)\<close> with the \<open>g\<close> flag: every match is replaced, each search
  starting where the previous match ended. The expressions used with the flag never
  match the empty string; after an empty match the search would move on by one code unit.
\<close>

function replace_all :: "rx \<Rightarrow> jsstring \<Rightarrow> jsstring \<Rightarrow> jsstring" where
  "replace_all r rep s =
     (case exec r s of
        None \<Rightarrow> s
      | Some (pre, caps, rest) \<Rightarrow>
          if length rest < length s then pre @ rep @ replace_all r rep rest
          else (case s of [] \<Rightarrow> rep | x # xs \<Rightarrow> rep @ x # replace_all r rep xs))"
  by pat_completeness auto
termination
  by (relation "measure (\<lambda>(r, rep, s). length s)") auto

declare replace_all.simps [simp del]

text \<open>
  \<open>s.split(r)[0]\<close>: the text before the leftmost match, or all of \<open>s\<close> without a match.
\<close>

definition split_head :: "rx \<Rightarrow> jsstring \<Rightarrow> jsstring" where
  "split_head r s = (case exec r s of None \<Rightarrow> s | Some (pre, _, _) \<Rightarrow> pre)"

text \<open>\<open>s.split(r)\<close> for an expression without captures that never matches the empty string.\<close>

function split_all :: "rx \<Rightarrow> jsstring \<Rightarrow> jsstring list" where
  "split_all r s =
     (case exec r s of
        None \<Rightarrow> [s]
      | Some (pre, caps, rest) \<Rightarrow>
          if length rest < length s then pre # split_all r rest else [s])"
  by pat_completeness auto
termination
  by (relation "measure (\<lambda>(r, s). length s)") auto

declare split_all.simps [simp del]

fun seqs :: "rx list \<Rightarrow> rx" where
  "seqs [] = Lit []"
| "seqs [r] = r"
| "seqs (r # rs) = Seq r (seqs rs)"

fun alts :: "rx list \<Rightarrow> rx" where
  "alts [] = Lit []"
| "alts [r] = r"
| "alts (r # rs) = Alt r (alts rs)"

definition many1 :: "cclass \<Rightarrow> rx" where
  "many1 k = Seq (Cls k) (Many k)"

definition opt :: "rx \<Rightarrow> rx" where
  "opt r = Alt r (Lit [])"

definition digits2 :: rx where
  "digits2 = Seq (Cls Digit) (Cls Digit)"

text \<open>\<open>\d{4}-\d{2}-\d{2}\<close>\<close>

definition rx_date :: rx where
  "rx_date = seqs [digits2, digits2, Lit (js ''-''), digits2, Lit (js ''-''), digits2]"

section \<open>String and number helpers\<close>

definition trimEnd :: "jsstring \<Rightarrow> jsstring" where
  "trimEnd s = rev (dropWhile is_space (rev s))"

definition trim :: "jsstring \<Rightarrow> jsstring" where
  "trim s = dropWhile is_space (trimEnd s)"

definition to_lower :: "jsstring \<Rightarrow> jsstring" where
  "to_lower s = map (\<lambda>c. if 65 \<le> c \<and> c \<le> 90 then c + 32 else c) s"

definition digits_value :: "jsstring \<Rightarrow> int" where
  "digits_value ds = foldl (\<lambda>a c. 10 * a + (int c - 48)) 0 ds"

text \<open>
  \<open>parseInt\<close> on an optional minus sign followed by decimal digits. Every argument in
  the source is a capture of \<open>\d+\<close> or \<open>-?\d+\<close>, or the literal \<open>"0"\<close>, so NaN does
  not arise. The value is the exact integer; JavaScript returns the nearest double, which
  is that integer when its magnitude is below \<open>2 ^ 53\<close>.
\<close>

definition parseInt :: "jsstring \<Rightarrow> int" where
  "parseInt s =
     (case s of
        [] \<Rightarrow> 0
      | c # cs \<Rightarrow> if c = 45 then - digits_value (takeWhile is_digit cs)
                  else digits_value (takeWhile is_digit s))"

function show_nat :: "nat \<Rightarrow> jsstring" where
  "show_nat n = (if n < 10 then [48 + n] else show_nat (n div 10) @ [48 + n mod 10])"
  by pat_completeness auto
termination
  by (relation "measure id") auto

declare show_nat.simps [simp del]

text \<open>
  The decimal text of an integer, which is what a template literal produces for a number
  of magnitude below \<open>2 ^ 53\<close>. Beyond, JavaScript prints the digits that identify the
  double, and from \<open>10 ^ 21\<close> on an exponent form; the model does not follow it there.
\<close>

definition show_int :: "int \<Rightarrow> jsstring" where
  "show_int i = (if i < 0 then 45 # show_nat (nat (- i)) else show_nat (nat i))"

text \<open>\<open>!d\<close> on an optional string: it is falsy when it is undefined or empty.\<close>

definition falsy :: "jsstring option \<Rightarrow> bool" where
  "falsy d = (case d of None \<Rightarrow> True | Some s \<Rightarrow> s = [])"

text \<open>\<open>a || d\<close> on an optional string: the empty string is falsy as well.\<close>

fun or_str :: "jsstring option \<Rightarrow> jsstring \<Rightarrow> jsstring" where
  "or_str None d = d"
| "or_str (Some s) d = (if s = [] then d else s)"

text \<open>\<open>n || 0\<close> and \<open>n ?? 0\<close> on an optional integer.\<close>

fun or_zero :: "int option \<Rightarrow> int" where
  "or_zero None = 0"
| "or_zero (Some n) = n"

section \<open>The task record\<close>

text \<open>
  The interface \<open>EisenhowerTask\<close>. Its field \<open>file\<close> is called \<open>file_path\<close> here,
  and the parameters \<open>line\<close> and \<open>file\<close> of \<open>parseTask\<close> are called \<open>ln\<close> and
  \<open>path\<close>; an optional field is an \<open>option\<close>.
\<close>

datatype level = High | Low

datatype habit = Daily | Weekly

datatype task_type = RepeatedDaily | Scheduled | Regular

record EisenhowerTask =
  content :: jsstring
  importance :: level
  urgency :: level
  durationMinutes :: int
  file_path :: jsstring
  line :: int
  habitType :: "habit option"
  accumulated :: bool
  accumulatedCount :: "int option"
  lastDoneDate :: "jsstring option"
  taskType :: task_type
  scheduledDate :: "jsstring option"
  startDate :: "jsstring option"
  currentStreak :: "int option"
  maxStreak :: "int option"
  lastStreakDate :: "jsstring option"
  attributeName :: "jsstring option"

section \<open>parseTask\<close>

text \<open>
  The glyphs that \<open>parseTask\<close> looks for, as the code units the source file spells them
  with: the urgency, importance, duration and schedule, habit, accumulated and start-date
  glyphs.
\<close>

definition urgency_glyph :: jsstring where
  "urgency_glyph = [0xF8FF, 0xFC, 0xEE, 0x2022]"

definition importance_glyph :: jsstring where
  "importance_glyph = [0x201A, 0x2260, 0xEA]"

definition hourglass_glyph :: jsstring where
  "hourglass_glyph = [0x201A, 0xE8, 0x2265]"

definition habit_glyph :: jsstring where
  "habit_glyph = [0xF8FF, 0xFC, 0xEE, 0xC5]"

definition accumulated_glyph :: jsstring where
  "accumulated_glyph = [0xF8FF, 0xFC, 0x2122, 0xF4]"

definition start_glyph :: jsstring where
  "start_glyph = [0x201A, 0xFB, 0xEF]"

text \<open>\<open>/\[importance::\s*(high|low)\]/i\<close>\<close>

definition rx_importance :: rx where
  "rx_importance =
     seqs [LitI (js ''[importance::''), Many Space,
           Cap (Alt (LitI (js ''high'')) (LitI (js ''low''))), LitI (js '']'')]"

text \<open>\<open>/\[urgency::\s*(high|low)\]/i\<close>\<close>

definition rx_urgency :: rx where
  "rx_urgency =
     seqs [LitI (js ''[urgency::''), Many Space,
           Cap (Alt (LitI (js ''high'')) (LitI (js ''low''))), LitI (js '']'')]"

text \<open>\<open>/\[duration::\s*(\d+)\]/i\<close>\<close>

definition rx_duration :: rx where
  "rx_duration =
     seqs [LitI (js ''[duration::''), Many Space, Cap (many1 Digit), LitI (js '']'')]"

text \<open>The duration glyph followed by \<open>(\d+)\<close>.\<close>

definition rx_duration_glyph :: rx where
  "rx_duration_glyph = seqs [Lit hourglass_glyph, Cap (many1 Digit)]"

text \<open>\<open>/\[habit::\s*(daily|weekly)\]/i\<close>\<close>

definition rx_habit :: rx where
  "rx_habit =
     seqs [LitI (js ''[habit::''), Many Space,
           Cap (Alt (LitI (js ''daily'')) (LitI (js ''weekly''))), LitI (js '']'')]"

text \<open>\<open>/\[accumulated::\s*true\]/i\<close>\<close>

definition rx_accumulated :: rx where
  "rx_accumulated =
     seqs [LitI (js ''[accumulated::''), Many Space, LitI (js ''true''), LitI (js '']'')]"

text \<open>\<open>/\[success::(-?\d+)]/i\<close>\<close>

definition rx_success :: rx where
  "rx_success =
     seqs [LitI (js ''[success::''), Cap (Seq (opt (Lit (js ''-''))) (many1 Digit)),
           LitI (js '']'')]"

text \<open>\<open>/\[(-?\d+)]\s*$/g\<close>, run once on a fresh expression.\<close>

definition rx_bracket_count :: rx where
  "rx_bracket_count =
     seqs [Lit (js ''[''), Cap (Seq (opt (Lit (js ''-''))) (many1 Digit)), Lit (js '']''),
           Many Space, Eol]"

text \<open>\<open>/\[last-done::(\d{4}-\d{2}-\d{2})\]/i\<close>\<close>

definition rx_last_done :: rx where
  "rx_last_done = seqs [LitI (js ''[last-done::''), Cap rx_date, LitI (js '']'')]"

text \<open>\<open>/\[streak::(\d+)\]/i\<close>\<close>

definition rx_streak :: rx where
  "rx_streak = seqs [LitI (js ''[streak::''), Cap (many1 Digit), LitI (js '']'')]"

text \<open>\<open>/\[max-streak::(\d+)\]/i\<close>\<close>

definition rx_max_streak :: rx where
  "rx_max_streak = seqs [LitI (js ''[max-streak::''), Cap (many1 Digit), LitI (js '']'')]"

text \<open>\<open>/\[last-streak-date::(\d{4}-\d{2}-\d{2})\]/i\<close>\<close>

definition rx_last_streak_date :: rx where
  "rx_last_streak_date =
     seqs [LitI (js ''[last-streak-date::''), Cap rx_date, LitI (js '']'')]"

text \<open>The schedule glyph, \<open>\s*\<close>, and a captured date.\<close>

definition rx_scheduled :: rx where
  "rx_scheduled = seqs [Lit hourglass_glyph, Many Space, Cap rx_date]"

text \<open>The start-date glyph, \<open>\s*\<close>, and a captured date.\<close>

definition rx_start :: rx where
  "rx_start = seqs [Lit start_glyph, Many Space, Cap rx_date]"

text \<open>\<open>/\[attribute::\s*([^\]\s]+)\]/i\<close>\<close>

definition rx_attribute :: rx where
  "rx_attribute =
     seqs [LitI (js ''[attribute::''), Many Space, Cap (many1 NotCloseOrSpace),
           LitI (js '']'')]"

text \<open>
  The local variable \<open>accumulatedCount\<close> of \<open>parseTask\<close>: the value of \<open>[success::N]\<close>,
  else of a bracketed number at the end of the line.
\<close>

definition count_of :: "jsstring \<Rightarrow> int option" where
  "count_of ln =
     (case capture1 rx_success ln of
        Some n \<Rightarrow> Some (parseInt n)
      | None \<Rightarrow> (case capture1 rx_bracket_count ln of
                   Some n \<Rightarrow> Some (parseInt n)
                 | None \<Rightarrow> None))"

definition habit_of :: "jsstring \<Rightarrow> habit option" where
  "habit_of s = (if s = js ''daily'' then Some Daily
                 else if s = js ''weekly'' then Some Weekly else None)"

text \<open>\<open>b === undefined\<close> for a boolean \<open>b\<close>: a boolean is never undefined.\<close>

definition bool_is_undefined :: "bool \<Rightarrow> bool" where
  "bool_is_undefined b = False"

definition parseTask :: "jsstring \<Rightarrow> jsstring \<Rightarrow> int \<Rightarrow> EisenhowerTask option" where
  "parseTask ln path lineNumber =
     (let importance_tag = map_option to_lower (capture1 rx_importance ln);
          urgency_tag = map_option to_lower (capture1 rx_urgency ln);
          duration = capture1 rx_duration ln;
          isUrgent = (test (Lit urgency_glyph) ln \<or> urgency_tag = Some (js ''high''));
          isImportant = (test (Lit importance_glyph) ln \<or> importance_tag = Some (js ''high''));
          durationText = or_str (capture1 rx_duration_glyph ln) (or_str duration (js ''0''));
          habitMatch = capture1 rx_habit ln;
          hasHabitEmoji = test (Lit habit_glyph) ln;
          habit_type = (case habitMatch of
                          Some h \<Rightarrow> habit_of (to_lower h)
                        | None \<Rightarrow> if hasHabitEmoji then Some Daily else None);
          is_accumulated = (test rx_accumulated ln \<or> test (Lit accumulated_glyph) ln);
          accumulated_count = count_of ln;
          last_done = capture1 rx_last_done ln;
          current_streak = map_option parseInt (capture1 rx_streak ln);
          max_streak = map_option parseInt (capture1 rx_max_streak ln);
          last_streak_date = capture1 rx_last_streak_date ln;
          scheduled_date = capture1 rx_scheduled ln;
          task_type = (if scheduled_date \<noteq> None then Scheduled
                       else if habit_type \<noteq> None then RepeatedDaily else Regular);
          start_date = capture1 rx_start ln;
          attribute_name = capture1 rx_attribute ln
      in if bool_is_undefined isUrgent \<and> bool_is_undefined isImportant \<and> habit_type = None
            \<and> \<not> is_accumulated \<and> falsy scheduled_date \<and> falsy start_date
            \<and> falsy attribute_name
         then None
         else Some \<lparr> content = ln,
                     importance = (if isImportant then High else Low),
                     urgency = (if isUrgent then High else Low),
                     durationMinutes = parseInt durationText,
                     file_path = path,
                     line = lineNumber,
                     habitType = habit_type,
                     accumulated = is_accumulated,
                     accumulatedCount =
                       (if is_accumulated then Some (or_zero accumulated_count) else None),
                     lastDoneDate = last_done,
                     taskType = task_type,
                     scheduledDate = scheduled_date,
                     startDate = start_date,
                     currentStreak = current_streak,
                     maxStreak = max_streak,
                     lastStreakDate = last_streak_date,
                     attributeName = attribute_name \<rparr>)"

section \<open>groupTasks\<close>

record quadrants =
  urgent_important :: "EisenhowerTask list"
  not_urgent_important :: "EisenhowerTask list"
  urgent_not_important :: "EisenhowerTask list"
  neither :: "EisenhowerTask list"

definition groupTasks :: "EisenhowerTask list \<Rightarrow> quadrants" where
  "groupTasks tasks =
     \<lparr> urgent_important = filter (\<lambda>t. importance t = High \<and> urgency t = High) tasks,
       not_urgent_important = filter (\<lambda>t. importance t = High \<and> urgency t = Low) tasks,
       urgent_not_important = filter (\<lambda>t. importance t = Low \<and> urgency t = High) tasks,
       neither = filter (\<lambda>t. importance t = Low \<and> urgency t = Low) tasks \<rparr>"

section \<open>calculateStreakFromDates\<close>

record streak_result =
  newStreak :: int
  shouldUpdate :: bool

text \<open>
  \<open>getTodayDateStr\<close> and \<open>getYesterdayDateStr\<close> read the clock; their results are the
  parameters \<open>today\<close> and \<open>yesterday\<close>.
\<close>

definition calculateStreakFromDates ::
  "jsstring \<Rightarrow> jsstring \<Rightarrow> jsstring option \<Rightarrow> jsstring option \<Rightarrow> int \<Rightarrow> streak_result" where
  "calculateStreakFromDates today yesterday lastDone lastStreak cur =
     (if falsy lastDone then \<lparr> newStreak = 0, shouldUpdate = False \<rparr>
      else if lastDone = Some today \<and> lastStreak = Some today
        then \<lparr> newStreak = cur, shouldUpdate = False \<rparr>
      else if lastDone = Some today
        then (if lastStreak = Some yesterday
              then \<lparr> newStreak = cur + 1, shouldUpdate = True \<rparr>
              else \<lparr> newStreak = 1, shouldUpdate = True \<rparr>)
      else if lastDone = Some yesterday \<and> lastStreak = Some yesterday
        then \<lparr> newStreak = cur, shouldUpdate = False \<rparr>
      else \<lparr> newStreak = 0, shouldUpdate = True \<rparr>)"

text \<open>
  The policy as the specification words it: six rules, tried in order, the first rule
  whose condition holds gives the result, the last rule has no condition.
\<close>

fun first_match :: "(bool \<times> 'a) list \<Rightarrow> 'a \<Rightarrow> 'a" where
  "first_match [] d = d"
| "first_match ((c, r) # rules) d = (if c then r else first_match rules d)"

definition updateStreak_policy ::
  "jsstring option \<Rightarrow> jsstring option \<Rightarrow> int \<Rightarrow> jsstring \<Rightarrow> jsstring \<Rightarrow> streak_result" where
  "updateStreak_policy lastDone lastStreak cur today yesterday =
     first_match
       [ (falsy lastDone, \<lparr> newStreak = 0, shouldUpdate = False \<rparr>),
         (lastDone = Some today \<and> lastStreak = Some today,
            \<lparr> newStreak = cur, shouldUpdate = False \<rparr>),
         (lastDone = Some today \<and> lastStreak = Some yesterday,
            \<lparr> newStreak = cur + 1, shouldUpdate = True \<rparr>),
         (lastDone = Some today, \<lparr> newStreak = 1, shouldUpdate = True \<rparr>),
         (lastDone = Some yesterday \<and> lastStreak = Some yesterday,
            \<lparr> newStreak = cur, shouldUpdate = False \<rparr>) ]
       \<lparr> newStreak = 0, shouldUpdate = True \<rparr>"

section \<open>The vault and the line mutations\<close>

text \<open>
  The vault maps a path to the text of the file stored there; a path with no file (or
  with a folder) maps to nothing. Every mutation reads the whole file, splits it at
  \<open>/\r?\n/\<close>, changes one line, and writes the lines back joined by a line feed.
\<close>

type_synonym vault = "jsstring \<rightharpoonup> jsstring"

definition split_lines :: "jsstring \<Rightarrow> jsstring list" where
  "split_lines text = split_all (Seq (opt (Lit [13])) (Lit [10])) text"

fun join_lines :: "jsstring list \<Rightarrow> jsstring" where
  "join_lines [] = []"
| "join_lines [l] = l"
| "join_lines (l # ls) = l @ 10 # join_lines ls"

text \<open>\<open>lines[idx]\<close>: undefined outside the array.\<close>

definition line_at :: "jsstring list \<Rightarrow> int \<Rightarrow> jsstring option" where
  "line_at ls idx = (if 0 \<le> idx \<and> idx < int (length ls) then Some (ls ! nat idx) else None)"

text \<open>The notices shown to the user, one constructor for each message of the source.\<close>

datatype notice =
    NoFileForHabit
  | NoFileForAccumulated
  | NoFileForTask
  | NoMatchHabit
  | NoMatchAccumulated
  | NoParseForStreak
  | HabitMarkedComplete
  | CountIncremented
  | CountDecremented
  | HabitCompleted int
  | HabitMarkedForToday
  | TaskMarkedComplete
  | NoIncompleteTask

text \<open>
  \<open>/(habit::|accumulated::|accumulated-count::|\[\d+]|importance::|urgency::|duration::)/\<close>,
  the expression at which the counter mutations cut the prefix of a line.
\<close>

definition rx_property :: rx where
  "rx_property =
     Cap (alts [Lit (js ''habit::''), Lit (js ''accumulated::''),
                Lit (js ''accumulated-count::''),
                seqs [Lit (js ''[''), many1 Digit, Lit (js '']'')],
                Lit (js ''importance::''), Lit (js ''urgency::''), Lit (js ''duration::'')])"

definition line_prefix :: "jsstring \<Rightarrow> jsstring" where
  "line_prefix s = trim (split_head rx_property s)"

text \<open>\<open>/\[success::\d+]/i\<close> and \<open>/\[success::(\d+)]/i\<close>\<close>

definition rx_success_test :: rx where
  "rx_success_test = seqs [LitI (js ''[success::''), many1 Digit, LitI (js '']'')]"

definition rx_success_digits :: rx where
  "rx_success_digits = seqs [LitI (js ''[success::''), Cap (many1 Digit), LitI (js '']'')]"

text \<open>\<open>/\[\d+\]\s*$/\<close> and \<open>/\[(\d+)]\s*$/\<close>\<close>

definition rx_bracket_test :: rx where
  "rx_bracket_test = seqs [Lit (js ''[''), many1 Digit, Lit (js '']''), Many Space, Eol]"

definition rx_bracket_digits :: rx where
  "rx_bracket_digits =
     seqs [Lit (js ''[''), Cap (many1 Digit), Lit (js '']''), Many Space, Eol]"

text \<open>The first capture handed to a replacement callback.\<close>

fun first_capture :: "jsstring list \<Rightarrow> jsstring" where
  "first_capture [] = []"
| "first_capture (c # cs) = c"

definition success_tag :: "int \<Rightarrow> jsstring" where
  "success_tag n = js ''[success::'' @ show_int n @ js '']''"

text \<open>The new text of the line in \<open>_incrementAccumulatedTask\<close>.\<close>

definition increment_line :: "jsstring \<Rightarrow> jsstring" where
  "increment_line ln =
     (if test rx_success_test ln
      then replace_first rx_success_digits
             (\<lambda>caps. success_tag (parseInt (first_capture caps) + 1)) ln
      else if test rx_bracket_test ln
      then (let newCount = (case capture1 rx_bracket_digits ln of
                              Some n \<Rightarrow> parseInt n + 1 | None \<Rightarrow> 1)
            in replace_first rx_bracket_digits (\<lambda>caps. success_tag newCount) ln)
      else trimEnd ln @ js '' [success::1]'')"

text \<open>The new text of the line in \<open>_decrementAccumulatedTask\<close>.\<close>

definition decrement_line :: "jsstring \<Rightarrow> jsstring" where
  "decrement_line ln =
     (if test rx_success_test ln
      then replace_first rx_success_digits
             (\<lambda>caps. success_tag (max 0 (parseInt (first_capture caps) - 1))) ln
      else if test rx_bracket_digits ln
      then (let newCount = (case capture1 rx_bracket_digits ln of
                              Some n \<Rightarrow> max 0 (parseInt n - 1) | None \<Rightarrow> 0)
            in replace_first rx_bracket_digits (\<lambda>caps. success_tag newCount) ln)
      else trimEnd ln @ js '' [success::0]'')"

text \<open>
  The frame shared by \<open>_incrementAccumulatedTask\<close> and \<open>_decrementAccumulatedTask\<close>:
  find the file, read the line, compare the prefixes, rewrite the line, write the file.
\<close>

definition accumulated_mutation ::
  "(jsstring \<Rightarrow> jsstring) \<Rightarrow> notice \<Rightarrow> vault \<Rightarrow> jsstring \<Rightarrow> int \<Rightarrow> jsstring \<Rightarrow> vault \<times> notice" where
  "accumulated_mutation rewrite done v filePath lineNumber originalLine =
     (case v filePath of
        None \<Rightarrow> (v, NoFileForAccumulated)
      | Some text \<Rightarrow>
          (let lines = split_lines text; idx = lineNumber - 1
           in if falsy (line_at lines idx) then (v, NoMatchAccumulated)
              else (let ln = lines ! nat idx;
                        originalPrefix = line_prefix originalLine;
                        linePrefix = line_prefix ln
                    in if \<not> prefix originalPrefix linePrefix then (v, NoMatchAccumulated)
                       else (v(filePath \<mapsto> join_lines (lines[nat idx := rewrite ln])),
                             done))))"

definition incrementAccumulatedTask ::
  "vault \<Rightarrow> jsstring \<Rightarrow> int \<Rightarrow> jsstring \<Rightarrow> vault \<times> notice" where
  "incrementAccumulatedTask = accumulated_mutation increment_line CountIncremented"

definition decrementAccumulatedTask ::
  "vault \<Rightarrow> jsstring \<Rightarrow> int \<Rightarrow> jsstring \<Rightarrow> vault \<times> notice" where
  "decrementAccumulatedTask = accumulated_mutation decrement_line CountDecremented"

text \<open>
  The four global replacements of \<open>_markHabitTaskDoneWithDate\<close>, which are case-sensitive:
  \<open>/\[last-done::\d{4}-\d{2}-\d{2}\]/g\<close>, \<open>/\[streak::\d+\]/g\<close>, \<open>/\[max-streak::\d+\]/g\<close>
  and \<open>/\[last-streak-date::\d{4}-\d{2}-\d{2}\]/g\<close>, each replaced by the empty string.
\<close>

definition remove_old_properties :: "jsstring \<Rightarrow> jsstring" where
  "remove_old_properties ln =
     replace_all (seqs [Lit (js ''[last-streak-date::''), rx_date, Lit (js '']'')]) []
       (replace_all (seqs [Lit (js ''[max-streak::''), many1 Digit, Lit (js '']'')]) []
         (replace_all (seqs [Lit (js ''[streak::''), many1 Digit, Lit (js '']'')]) []
           (replace_all (seqs [Lit (js ''[last-done::''), rx_date, Lit (js '']'')]) [] ln)))"

text \<open>The line with its old properties removed and the new last-done date appended.\<close>

definition with_last_done :: "jsstring \<Rightarrow> jsstring \<Rightarrow> jsstring" where
  "with_last_done today ln =
     trimEnd (remove_old_properties ln) @ js '' [last-done::'' @ today @ js '']''"

text \<open>The three streak annotations appended when the streak is updated.\<close>

definition streak_suffix :: "int \<Rightarrow> int \<Rightarrow> jsstring \<Rightarrow> jsstring" where
  "streak_suffix new_streak max_streak today =
     js '' [streak::'' @ show_int new_streak @ js '']''
     @ js '' [max-streak::'' @ show_int max_streak @ js '']''
     @ js '' [last-streak-date::'' @ today @ js '']''"

text \<open>
  \<open>_markHabitTaskDoneWithDate\<close>. The setting \<open>enableStreakTracking\<close> and the two clock
  readings are parameters.
\<close>

definition markHabitTaskDoneWithDate ::
  "bool \<Rightarrow> jsstring \<Rightarrow> jsstring \<Rightarrow> vault \<Rightarrow> jsstring \<Rightarrow> int \<Rightarrow> jsstring \<Rightarrow> vault \<times> notice" where
  "markHabitTaskDoneWithDate enableStreakTracking today yesterday v filePath lineNumber originalLine =
     (case v filePath of
        None \<Rightarrow> (v, NoFileForHabit)
      | Some text \<Rightarrow>
          (let lines = split_lines text; idx = lineNumber - 1
           in if \<not> falsy (line_at lines idx) \<and> trim (lines ! nat idx) = trim originalLine
              then (let ln = lines ! nat idx;
                        newLine = with_last_done today ln
                    in if enableStreakTracking
                       then (case parseTask ln filePath lineNumber of
                               None \<Rightarrow> (v, NoParseForStreak)
                             | Some task \<Rightarrow>
                                 (let streakResult =
                                        calculateStreakFromDates today yesterday
                                          (lastDoneDate task) (lastStreakDate task)
                                          (or_zero (currentStreak task))
                                  in if shouldUpdate streakResult
                                     then (let new_streak = newStreak streakResult;
                                               max_streak = max new_streak (or_zero (maxStreak task))
                                           in (v(filePath \<mapsto> join_lines (lines[nat idx :=
                                                   newLine @ streak_suffix new_streak max_streak today])),
                                               HabitCompleted new_streak))
                                     else (v(filePath \<mapsto> join_lines (lines[nat idx := newLine])),
                                           HabitMarkedForToday)))
                       else (v(filePath \<mapsto> join_lines (lines[nat idx := newLine])),
                             HabitMarkedForToday))
              else (v, NoMatchHabit)))"

text \<open>\<open>_markHabitTaskDone\<close>: \<open>/^(- \[) \]/\<close> can only match at the start of the line.\<close>

definition markHabitTaskDone :: "vault \<Rightarrow> jsstring \<Rightarrow> int \<Rightarrow> jsstring \<Rightarrow> vault \<times> notice" where
  "markHabitTaskDone v filePath lineNumber originalLine =
     (case v filePath of
        None \<Rightarrow> (v, NoFileForHabit)
      | Some text \<Rightarrow>
          (let lines = split_lines text; idx = lineNumber - 1
           in if \<not> falsy (line_at lines idx) \<and> trim (lines ! nat idx) = trim originalLine
              then (let ln = lines ! nat idx;
                        marked = (if take 5 ln = js ''- [ ]'' then js ''- [x]'' @ drop 5 ln else ln)
                    in (v(filePath \<mapsto> join_lines (lines[nat idx := marked])), HabitMarkedComplete))
              else (v, NoMatchHabit)))"

text \<open>
  \<open>_markEisenhowerTaskDone\<close>; the third component is the value returned (nothing when the
  file is not found).
\<close>

definition markEisenhowerTaskDone ::
  "vault \<Rightarrow> jsstring \<Rightarrow> int \<Rightarrow> jsstring \<Rightarrow> vault \<times> notice \<times> bool option" where
  "markEisenhowerTaskDone v filePath lineNumber originalLine =
     (case v filePath of
        None \<Rightarrow> (v, NoFileForTask, None)
      | Some text \<Rightarrow>
          (let lines = split_lines text; idx = lineNumber - 1
           in if \<not> falsy (line_at lines idx) \<and> test (Lit (js ''- [ ]'')) (lines ! nat idx)
              then (v(filePath \<mapsto> join_lines (lines[nat idx :=
                        replace_first (Lit (js ''- [ ]'')) (\<lambda>caps. js ''- [x]'') (lines ! nat idx)])),
                    TaskMarkedComplete, Some True)
              else (v, NoIncompleteTask, Some False)))"

section \<open>Notions used in the proofs\<close>

text \<open>
  The counter expressions of the source differ only in whether the number may carry a
  minus sign and in what follows the closing bracket. The proofs treat them through two
  families: \<open>success_rx\<close> (\<open>[success::N]\<close>, any case) and \<open>bracket_rx\<close> (\<open>[N]\<close> before
  optional white space at the end of the line), each with a signed and an unsigned member.
  \<open>is_number\<close> says that a text is a number of the kind, \<open>number_prefix\<close> reads the
  number at the head of a text. \<open>tag_rx l\<close> is the expression of an annotation whose
  opening text is \<open>l\<close>, as in \<open>/\[streak::(\d+)\]/i\<close>, and \<open>tag_name l\<close> says that \<open>l\<close>
  opens with a bracket and has no further bracket and no blank.
\<close>

definition is_number :: "bool \<Rightarrow> jsstring \<Rightarrow> bool" where
  "is_number signed c =
     (case c of
        [] \<Rightarrow> False
      | x # d \<Rightarrow> if signed \<and> x = 45 then d \<noteq> [] \<and> list_all is_digit d
                 else list_all is_digit (x # d))"

definition number_prefix :: "bool \<Rightarrow> jsstring \<Rightarrow> jsstring" where
  "number_prefix signed t =
     (case t of
        [] \<Rightarrow> []
      | x # u \<Rightarrow> if signed \<and> x = 45
                 then (if takeWhile is_digit u = [] then [] else 45 # takeWhile is_digit u)
                 else takeWhile is_digit t)"

definition number_rx :: "bool \<Rightarrow> rx" where
  "number_rx signed = (if signed then Seq (opt (Lit [45])) (many1 Digit) else many1 Digit)"

definition tag_rx :: "jsstring \<Rightarrow> bool \<Rightarrow> rx" where
  "tag_rx l sg = Seq (LitI l) (Seq (Cap (number_rx sg)) (LitI [93]))"

definition tag_name :: "jsstring \<Rightarrow> bool" where
  "tag_name l =
     (case l of [] \<Rightarrow> False
      | x # l' \<Rightarrow> x = 91 \<and> list_all (\<lambda>y. canon y \<noteq> 91 \<and> canon y \<noteq> 32) l')"

definition success_rx :: "bool \<Rightarrow> rx" where
  "success_rx sg = Seq (LitI (js ''[success::'')) (Seq (Cap (number_rx sg)) (LitI [93]))"

definition bracket_rx :: "bool \<Rightarrow> rx" where
  "bracket_rx sg =
     Seq (Lit [91]) (Seq (Cap (number_rx sg)) (Seq (Lit [93]) (Seq (Many Space) Eol)))"

section \<open>Lemmas about the matcher\<close>

lemma rests_Seq:
  "map snd (rmatch (Seq a b) s) = concat (map (\<lambda>r. map snd (rmatch b r)) (map snd (rmatch a s)))"
  by (simp add: map_concat comp_def case_prod_unfold)

lemma rests_Cap: "map snd (rmatch (Cap a) s) = map snd (rmatch a s)"
  by (simp add: comp_def case_prod_unfold)

lemma rsearch_None_cong:
  assumes "\<And>t. rmatch r t = [] \<longleftrightarrow> rmatch r' t = []"
  shows "rsearch r p s = None \<longleftrightarrow> rsearch r' p' s = None"
proof (induction s arbitrary: p p')
  case Nil
  show ?case using assms[of "[]"] by (auto split: list.splits)
next
  case (Cons x xs)
  show ?case using assms[of "x # xs"] Cons.IH[of "p @ [x]" "p' @ [x]"]
    by (auto split: list.splits)
qed

lemma test_cong:
  assumes "\<And>t. map snd (rmatch r t) = map snd (rmatch r' t)"
  shows "test r s = test r' s"
proof -
  have "rmatch r t = [] \<longleftrightarrow> rmatch r' t = []" for t
    using assms[of t] by (metis map_is_Nil_conv)
  then show ?thesis
    unfolding test_def exec_def using rsearch_None_cong[of r r' "[]" s "[]"] by simp
qed

lemma test_bracket_digits: "test rx_bracket_digits s = test rx_bracket_test s"
proof (rule test_cong)
  fix t
  show "map snd (rmatch rx_bracket_digits t) = map snd (rmatch rx_bracket_test t)"
    unfolding rx_bracket_digits_def rx_bracket_test_def seqs.simps
    by (simp only: rests_Seq rests_Cap)
qed

lemma line_at_nth: "line_at ls idx = Some ln \<Longrightarrow> ls ! nat idx = ln"
  by (simp add: line_at_def split: if_splits)

section \<open>The counter expressions, position by position\<close>

lemma Many_bind:
  assumes "\<And>c x t. in_cls k x \<Longrightarrow> G (c, x # t) = []"
  shows "concat (map G (rmatch (Many k) s)) = G ([], dropWhile (in_cls k) s)"
  using assms by (induction s) auto

lemma take_minus_dropWhile:
  "take (length xs - length (dropWhile P xs)) xs = takeWhile P xs"
proof -
  have "length xs - length (dropWhile P xs) = length (takeWhile P xs)"
    by (metis add_diff_cancel_right' length_append takeWhile_dropWhile_id)
  then show ?thesis by (simp add: takeWhile_eq_take[symmetric])
qed

lemma cap_digits_then:
  assumes B: "\<And>x t. is_digit x \<Longrightarrow> rmatch b (x # t) = []"
  shows "rmatch (Seq (Cap (many1 Digit)) b) s =
         (if takeWhile is_digit s = [] then []
          else map (\<lambda>(c2, r2). (takeWhile is_digit s # c2, r2)) (rmatch b (dropWhile is_digit s)))"
proof (cases s)
  case Nil
  then show ?thesis by (simp add: many1_def)
next
  case (Cons x xs)
  show ?thesis
  proof (cases "is_digit x")
    case False
    then show ?thesis using Cons by (simp add: many1_def)
  next
    case True
    let ?G = "\<lambda>(c, r). map (\<lambda>(c2, r2). ((take (Suc (length xs) - length r) (x # xs) # c) @ c2, r2))
                 (rmatch b r)"
    have G: "?G (c, y # t) = []" if "in_cls Digit y" for c y t
      using that B by simp
    have "rmatch (Seq (Cap (many1 Digit)) b) (x # xs) = concat (map ?G (rmatch (Many Digit) xs))"
      using True by (simp add: many1_def comp_def case_prod_unfold)
    also have "\<dots> = ?G ([], dropWhile (in_cls Digit) xs)"
      by (rule Many_bind) (rule G)
    also have "\<dots> = map (\<lambda>(c2, r2). (takeWhile is_digit (x # xs) # c2, r2))
                       (rmatch b (dropWhile is_digit (x # xs)))"
    proof -
      have "take (Suc (length xs) - length (dropWhile is_digit xs)) (x # xs)
          = x # takeWhile is_digit xs"
        using take_minus_dropWhile[of "x # xs" is_digit] True by simp
      moreover have "in_cls Digit = is_digit" by (rule ext) simp
      ultimately show ?thesis using True by simp
    qed
    finally show ?thesis using Cons True by simp
  qed
qed


lemma cap_signed_then:
  assumes B: "\<And>x t. is_digit x \<Longrightarrow> rmatch b (x # t) = []"
  shows "rmatch (Seq (Cap (Seq (opt (Lit [45])) (many1 Digit))) b) s =
         (case s of
            [] \<Rightarrow> []
          | x # t \<Rightarrow>
              if x = 45
              then (if takeWhile is_digit t = [] then []
                    else map (\<lambda>(c2, r2). ((45 # takeWhile is_digit t) # c2, r2))
                           (rmatch b (dropWhile is_digit t)))
              else rmatch (Seq (Cap (many1 Digit)) b) s)"
proof (cases s)
  case Nil
  then show ?thesis by (simp add: many1_def opt_def)
next
  case (Cons x t)
  show ?thesis
  proof (cases "x = 45")
    case False
    then show ?thesis using Cons by (simp add: opt_def)
  next
    case True
    have nd: "\<not> is_digit 45" by (simp add: is_digit_def)
    show ?thesis
    proof (cases t)
      case Nil
      then show ?thesis using Cons True nd by (simp add: opt_def many1_def)
    next
      case (Cons y ys)
      note t = Cons
      show ?thesis
      proof (cases "is_digit y")
        case False
        then show ?thesis using \<open>s = x # t\<close> True nd t by (simp add: opt_def many1_def)
      next
        case dy: True
        let ?G = "\<lambda>(c, r). map (\<lambda>(c2, r2). ((take (Suc (Suc (length ys)) - length r) (45 # y # ys) # c) @ c2, r2))
                 (rmatch b r)"
        have G: "?G (c, z # u) = []" if "in_cls Digit z" for c z u
          using that B by simp
        have "rmatch (Seq (Cap (Seq (opt (Lit [45])) (many1 Digit))) b) (45 # y # ys)
            = concat (map ?G (rmatch (Many Digit) ys))"
          using dy nd by (simp add: many1_def opt_def comp_def case_prod_unfold)
        also have "\<dots> = ?G ([], dropWhile (in_cls Digit) ys)"
          by (rule Many_bind) (rule G)
        also have "\<dots> = map (\<lambda>(c2, r2). ((45 # takeWhile is_digit (y # ys)) # c2, r2))
                       (rmatch b (dropWhile is_digit (y # ys)))"
        proof -
          have "Suc (Suc (length ys)) - length (dropWhile is_digit ys)
              = Suc (Suc (length ys - length (dropWhile is_digit ys)))"
            using length_dropWhile_le[of is_digit ys] by simp
          then have "take (Suc (Suc (length ys)) - length (dropWhile is_digit ys)) (45 # y # ys)
              = 45 # y # takeWhile is_digit ys"
            by (simp add: take_minus_dropWhile)
          moreover have "in_cls Digit = is_digit" by (rule ext) simp
          ultimately show ?thesis using dy by simp
        qed
        finally show ?thesis using \<open>s = x # t\<close> True t dy by simp
      qed
    qed
  qed
qed

lemma not_digit_45: "\<not> is_digit 45"
  by (simp add: is_digit_def)

lemma cap_number_then:
  assumes B: "\<And>x t. is_digit x \<Longrightarrow> rmatch b (x # t) = []"
  shows "rmatch (Seq (Cap (number_rx sg)) b) t =
         (if number_prefix sg t = [] then []
          else map (\<lambda>(c2, r2). (number_prefix sg t # c2, r2))
                 (rmatch b (drop (length (number_prefix sg t)) t)))"
proof (cases sg)
  case False
  then show ?thesis
    using cap_digits_then[OF B, of t]
    by (cases t) (simp_all add: number_rx_def number_prefix_def dropWhile_eq_drop)
next
  case True
  show ?thesis
  proof (cases t)
    case Nil
    then show ?thesis using True cap_signed_then[OF B, of t]
      by (simp add: number_rx_def number_prefix_def)
  next
    case (Cons x u)
    then show ?thesis
      using True cap_signed_then[OF B, of t] cap_digits_then[OF B, of t] not_digit_45
      by (auto simp add: number_rx_def number_prefix_def dropWhile_eq_drop)
  qed
qed

lemma number_prefix_is_number:
  "number_prefix sg t \<noteq> [] \<Longrightarrow> is_number sg (number_prefix sg t)"
  by (cases t) (auto simp: number_prefix_def is_number_def list_all_iff not_digit_45
      dest: set_takeWhileD split: if_splits list.splits)

lemma number_prefix_take:
  "take (length (number_prefix sg t)) t = number_prefix sg t"
  by (cases t) (auto simp: number_prefix_def takeWhile_eq_take[symmetric])

lemma number_prefix_append:
  assumes "is_number sg c" and "r = [] \<or> \<not> is_digit (hd r)"
  shows "number_prefix sg (c @ r) = c"
proof -
  have tw: "takeWhile is_digit (d @ r) = d" if "list_all is_digit d" for d
    using that assms(2) by (cases r) (auto simp: list_all_iff takeWhile_append2 takeWhile_eq_all_conv[THEN iffD2])
  show ?thesis
    using assms(1) tw
    by (cases c) (auto simp: number_prefix_def is_number_def not_digit_45 split: if_splits)
qed

lemma is_number_unsigned: "is_number False c \<longleftrightarrow> c \<noteq> [] \<and> list_all is_digit c"
  by (cases c) (auto simp: is_number_def)

lemma is_number_signed:
  "is_number True c \<longleftrightarrow> is_number False c \<or> (\<exists>d. c = 45 # d \<and> is_number False d)"
  by (cases c) (auto simp: is_number_def not_digit_45 split: list.splits)

lemma rx_success_eq: "rx_success = success_rx True"
  by (simp add: rx_success_def success_rx_def number_rx_def js_def)

lemma rx_success_digits_eq: "rx_success_digits = success_rx False"
  by (simp add: rx_success_digits_def success_rx_def number_rx_def js_def)

lemma rx_bracket_count_eq: "rx_bracket_count = bracket_rx True"
  by (simp add: rx_bracket_count_def bracket_rx_def number_rx_def js_def)

lemma rx_bracket_digits_eq: "rx_bracket_digits = bracket_rx False"
  by (simp add: rx_bracket_digits_def bracket_rx_def number_rx_def js_def)

lemma pair_map_id: "map (\<lambda>(c2, r2). ([] @ c2, r2)) xs = xs"
  by (induction xs) auto

lemma rmatch_LitI_Seq:
  "rmatch (Seq (LitI l) b) s =
     (if map canon (take (length l) s) = map canon l then rmatch b (drop (length l) s) else [])"
  by (simp add: pair_map_id)

lemma rmatch_Lit_Seq:
  "rmatch (Seq (Lit l) b) s = (if take (length l) s = l then rmatch b (drop (length l) s) else [])"
  by (simp add: pair_map_id)

lemma Seq_Many:
  assumes "\<And>x t. in_cls k x \<Longrightarrow> rmatch b (x # t) = []"
  shows "rmatch (Seq (Many k) b) s = rmatch b (dropWhile (in_cls k) s)"
proof -
  let ?G = "\<lambda>(c1, r1). map (\<lambda>(c2, r2). (c1 @ c2, r2)) (rmatch b r1)"
  have "concat (map ?G (rmatch (Many k) s)) = ?G ([], dropWhile (in_cls k) s)"
    by (rule Many_bind) (simp add: assms)
  then show ?thesis by (simp add: pair_map_id)
qed

lemma canon_93: "canon x = 93 \<longleftrightarrow> x = 93"
  by (auto simp: canon_def)

lemma rmatch_close:
  "rmatch (LitI [93]) r = (if take 1 r = [93] then [([], drop 1 r)] else [])"
  by (cases r) (auto simp: canon_def)

lemma rmatch_close_end:
  "rmatch (Seq (Lit [93]) (Seq (Many Space) Eol)) r =
     (if take 1 r = [93] \<and> list_all is_space (drop 1 r) then [([], [])] else [])"
proof -
  have sp: "in_cls Space = is_space" by (rule ext) simp
  have "rmatch (Seq (Many Space) Eol) u = (if list_all is_space u then [([], [])] else [])" for u
    using Seq_Many[of Space Eol u] by (simp add: sp list_all_iff dropWhile_eq_Nil_conv)
  then show ?thesis
    by (simp only: rmatch_Lit_Seq) (cases r; simp)
qed

lemma not_digit_93: "\<not> is_digit 93"
  by (simp add: is_digit_def)

lemma success_rx_tag: "success_rx sg = tag_rx (js ''[success::'') sg"
  by (simp add: success_rx_def tag_rx_def)

lemma rmatch_tag_rx:
  "rmatch (tag_rx l sg) s =
     (let t = drop (length l) s; c = number_prefix sg t; r = drop (length c) t
      in if map canon (take (length l) s) = map canon l \<and> c \<noteq> [] \<and> take 1 r = [93]
         then [([c], drop 1 r)] else [])"
proof -
  have B: "rmatch (LitI [93]) (x # t) = []" if "is_digit x" for x t
    using that by (auto simp: canon_def is_digit_def)
  have "rmatch (tag_rx l sg) s =
      (if map canon (take (length l) s) = map canon l
       then rmatch (Seq (Cap (number_rx sg)) (LitI [93])) (drop (length l) s)
       else [])"
    unfolding tag_rx_def by (rule rmatch_LitI_Seq)
  then show ?thesis
    by (simp only: cap_number_then[OF B] rmatch_close) (simp add: Let_def)
qed

lemma rmatch_bracket_rx:
  "rmatch (bracket_rx sg) s =
     (let t = drop 1 s; c = number_prefix sg t; r = drop (length c) t
      in if take 1 s = [91] \<and> c \<noteq> [] \<and> take 1 r = [93] \<and> list_all is_space (drop 1 r)
         then [([c], [])] else [])"
proof -
  have B: "rmatch (Seq (Lit [93]) (Seq (Many Space) Eol)) (x # t) = []" if "is_digit x" for x t
    using that not_digit_93 by (auto simp: rmatch_close_end)
  have "rmatch (bracket_rx sg) s =
      (if take (length [91::nat]) s = [91]
       then rmatch (Seq (Cap (number_rx sg)) (Seq (Lit [93]) (Seq (Many Space) Eol)))
              (drop (length [91::nat]) s)
       else [])"
    unfolding bracket_rx_def by (rule rmatch_Lit_Seq)
  then show ?thesis
    by (simp only: cap_number_then[OF B] rmatch_close_end) (simp add: Let_def)
qed

lemma tag_sound:
  assumes "rmatch (tag_rx l sg) s = x # xs"
  shows "\<exists>L c rest. s = L @ c @ 93 # rest \<and> x = ([c], rest) \<and> xs = []
           \<and> map canon L = map canon l \<and> is_number sg c"
proof -
  let ?t = "drop (length l) s"
  let ?c = "number_prefix sg ?t"
  let ?r = "drop (length ?c) ?t"
  have c: "map canon (take (length l) s) = map canon l" "?c \<noteq> []" "take 1 ?r = [93]"
    and x: "x = ([?c], drop 1 ?r)" "xs = []"
    using assms by (auto simp: rmatch_tag_rx Let_def split: if_splits)
  have r: "?r = 93 # drop 1 ?r"
    using c(3) by (cases ?r) auto
  have "s = take (length l) s @ ?t" by simp
  also have "?t = ?c @ ?r"
    using number_prefix_take[of sg ?t] by (metis append_take_drop_id)
  finally have "s = take (length l) s @ ?c @ 93 # drop 1 ?r" using r by simp
  then show ?thesis
    using x c number_prefix_is_number[OF c(2)] by blast
qed

lemma success_sound:
  assumes "rmatch (success_rx sg) s = x # xs"
  shows "\<exists>L c rest. s = L @ c @ 93 # rest \<and> x = ([c], rest) \<and> xs = []
           \<and> map canon L = map canon (js ''[success::'') \<and> is_number sg c"
  using assms unfolding success_rx_tag by (rule tag_sound)

lemma tag_complete:
  assumes "map canon L = map canon l" and "is_number sg c"
  shows "rmatch (tag_rx l sg) (L @ c @ 93 # rest) = [([c], rest)]"
proof -
  have len: "length L = length l"
    using arg_cong[OF assms(1), of length] by simp
  have np: "number_prefix sg (c @ 93 # rest) = c"
    by (rule number_prefix_append[OF assms(2)]) (simp add: not_digit_93)
  show ?thesis
    using assms(1) assms(2) len np
    by (auto simp: rmatch_tag_rx Let_def is_number_def)
qed

lemma success_complete:
  assumes "map canon L = map canon (js ''[success::'')" and "is_number sg c"
  shows "rmatch (success_rx sg) (L @ c @ 93 # rest) = [([c], rest)]"
  unfolding success_rx_tag by (rule tag_complete[OF assms])

lemma bracket_sound:
  assumes "rmatch (bracket_rx sg) s = x # xs"
  shows "\<exists>c ws. s = 91 # c @ 93 # ws \<and> x = ([c], []) \<and> xs = []
           \<and> is_number sg c \<and> list_all is_space ws"
proof -
  let ?t = "drop 1 s"
  let ?c = "number_prefix sg ?t"
  let ?r = "drop (length ?c) ?t"
  have c: "take 1 s = [91]" "?c \<noteq> []" "take 1 ?r = [93]" "list_all is_space (drop 1 ?r)"
    and x: "x = ([?c], [])" "xs = []"
    using assms by (auto simp: rmatch_bracket_rx Let_def split: if_splits)
  have r: "?r = 93 # drop 1 ?r"
    using c(3) by (cases ?r) auto
  have "s = 91 # ?t" using c(1) by (cases s) auto
  also have "?t = ?c @ ?r"
    using number_prefix_take[of sg ?t] by (metis append_take_drop_id)
  finally have "s = 91 # ?c @ 93 # drop 1 ?r" using r by simp
  then show ?thesis
    using x c number_prefix_is_number[OF c(2)] by blast
qed

lemma bracket_complete:
  assumes "is_number sg c" and "list_all is_space ws"
  shows "rmatch (bracket_rx sg) (91 # c @ 93 # ws) = [([c], [])]"
proof -
  have np: "number_prefix sg (c @ 93 # ws) = c"
    by (rule number_prefix_append[OF assms(1)]) (simp add: not_digit_93)
  show ?thesis
    using assms np by (auto simp: rmatch_bracket_rx Let_def is_number_def)
qed

section \<open>Searching, and numbers as text\<close>

lemma rsearch_Some_elim:
  "rsearch r acc s = Some (pre, caps, rest) \<Longrightarrow>
     \<exists>u t xs. pre = acc @ u \<and> s = u @ t \<and> rmatch r t = (caps, rest) # xs
       \<and> (\<forall>i<length u. rmatch r (drop i u @ t) = [])"
proof (induction s arbitrary: acc)
  case Nil
  then show ?case by (auto split: list.splits)
next
  case (Cons x xs)
  show ?case
  proof (cases "rmatch r (x # xs)")
    case (Cons m ms)
    then have "pre = acc @ [] \<and> x # xs = [] @ (x # xs) \<and> rmatch r (x # xs) = (caps, rest) # ms"
      using Cons.prems by auto
    then show ?thesis by (metis less_nat_zero_code list.size(3))
  next
    case Nil
    then have "rsearch r (acc @ [x]) xs = Some (pre, caps, rest)"
      using Cons.prems by simp
    from Cons.IH[OF this] obtain u t ys where
      u: "pre = (acc @ [x]) @ u" "xs = u @ t" "rmatch r t = (caps, rest) # ys"
         "\<forall>i<length u. rmatch r (drop i u @ t) = []"
      by blast
    have "\<forall>i<length (x # u). rmatch r (drop i (x # u) @ t) = []"
    proof (intro allI impI)
      fix i assume "i < length (x # u)"
      then show "rmatch r (drop i (x # u) @ t) = []"
        using Nil u(2,4) by (cases i) auto
    qed
    then have "pre = acc @ (x # u) \<and> x # xs = (x # u) @ t \<and> rmatch r t = (caps, rest) # ys
        \<and> (\<forall>i<length (x # u). rmatch r (drop i (x # u) @ t) = [])"
      using u by simp
    then show ?thesis by blast
  qed
qed

lemma rsearch_Some_intro:
  assumes "\<forall>i<length u. rmatch r (drop i u @ t) = []" and "rmatch r t = (caps, rest) # xs"
  shows "rsearch r acc (u @ t) = Some (acc @ u, caps, rest)"
  using assms(1)
proof (induction u arbitrary: acc)
  case Nil
  show ?case using assms(2) by (cases t) auto
next
  case (Cons a u)
  have 0: "rmatch r (a # u @ t) = []"
    using Cons.prems by (metis append_Cons drop0 length_greater_0_conv list.discI)
  have "\<forall>i<length u. rmatch r (drop i u @ t) = []"
    using Cons.prems by (metis Suc_less_eq drop_Suc_Cons length_Cons)
  from Cons.IH[OF this, of "acc @ [a]"] show ?case
    using 0 by simp
qed

lemma rsearch_None_iff:
  "rsearch r acc s = None \<longleftrightarrow> (\<forall>i\<le>length s. rmatch r (drop i s) = [])"
proof (induction s arbitrary: acc)
  case Nil
  show ?case by (auto split: list.splits)
next
  case (Cons x xs)
  show ?case
  proof (cases "rmatch r (x # xs)")
    case (Cons m ms)
    then show ?thesis by (auto split: list.splits)
  next
    case Nil
    have "(\<forall>i\<le>length (x # xs). rmatch r (drop i (x # xs)) = [])
        \<longleftrightarrow> (\<forall>i\<le>length xs. rmatch r (drop i xs) = [])"
    proof
      assume a: "\<forall>i\<le>length (x # xs). rmatch r (drop i (x # xs)) = []"
      show "\<forall>i\<le>length xs. rmatch r (drop i xs) = []"
      proof (intro allI impI)
        fix i assume "i \<le> length xs"
        then show "rmatch r (drop i xs) = []" using a[rule_format, of "Suc i"] by simp
      qed
    next
      assume a: "\<forall>i\<le>length xs. rmatch r (drop i xs) = []"
      show "\<forall>i\<le>length (x # xs). rmatch r (drop i (x # xs)) = []"
      proof (intro allI impI)
        fix i assume "i \<le> length (x # xs)"
        then show "rmatch r (drop i (x # xs)) = []" using a Nil by (cases i) auto
      qed
    qed
    then show ?thesis using Nil Cons.IH[of "acc @ [x]"] by simp
  qed
qed

lemma show_nat_digits: "show_nat n \<noteq> [] \<and> list_all is_digit (show_nat n)"
proof (induction n rule: show_nat.induct)
  case (1 n)
  show ?case
  proof (cases "n < 10")
    case True
    then show ?thesis by (subst show_nat.simps, subst (2) show_nat.simps) (simp add: is_digit_def)
  next
    case False
    have ih: "show_nat (n div 10) \<noteq> []" "list_all is_digit (show_nat (n div 10))"
      using 1 False by simp_all
    have "n mod 10 < 10" by simp
    then have d: "is_digit (48 + n mod 10)" by (simp add: is_digit_def)
    show ?thesis
      using False ih d by (subst show_nat.simps, subst (2) show_nat.simps) simp
  qed
qed

lemma digits_value_snoc: "digits_value (ds @ [d]) = 10 * digits_value ds + (int d - 48)"
  by (simp add: digits_value_def)

lemma digits_value_show_nat: "digits_value (show_nat n) = int n"
proof (induction n rule: show_nat.induct)
  case (1 n)
  show ?case
  proof (cases "n < 10")
    case True
    then show ?thesis by (subst show_nat.simps) (simp add: digits_value_def)
  next
    case False
    have "int (10 * (n div 10) + n mod 10) = int n" by simp
    then have e: "10 * int (n div 10) + int (n mod 10) = int n"
      by (simp only: of_nat_add of_nat_mult of_nat_numeral)
    have "digits_value (show_nat (n div 10)) = int (n div 10)"
      using 1 False by simp
    then have "digits_value (show_nat n) = 10 * int (n div 10) + int (n mod 10)"
      using False by (subst show_nat.simps) (simp add: digits_value_snoc)
    then show ?thesis using e by simp
  qed
qed

lemma digits_value_nonneg: "list_all is_digit ds \<Longrightarrow> 0 \<le> digits_value ds"
proof (induction ds rule: rev_induct)
  case Nil
  show ?case by (simp add: digits_value_def)
next
  case (snoc d ds)
  then show ?case by (simp add: digits_value_snoc is_digit_def)
qed

lemma takeWhile_all: "list_all P xs \<Longrightarrow> takeWhile P xs = xs"
  by (simp add: list_all_iff)

lemma parseInt_show_int: "0 \<le> k \<Longrightarrow> parseInt (show_int k) = k"
proof -
  assume k: "0 \<le> k"
  obtain x xs where s: "show_nat (nat k) = x # xs"
    using show_nat_digits[of "nat k"] by (cases "show_nat (nat k)") auto
  have d: "list_all is_digit (x # xs)" using show_nat_digits[of "nat k"] s by simp
  then have "x \<noteq> 45" by (auto simp: is_digit_def)
  then have "parseInt (x # xs) = digits_value (x # xs)"
    using takeWhile_all[OF d] by (simp add: parseInt_def)
  then show ?thesis using k s digits_value_show_nat[of "nat k"] by (simp add: show_int_def)
qed

lemma show_int_number: "0 \<le> k \<Longrightarrow> is_number sg (show_int k)"
proof -
  assume k: "0 \<le> k"
  have u: "is_number False (show_int k)"
    using k show_nat_digits[of "nat k"] by (simp add: show_int_def is_number_unsigned)
  then show ?thesis by (cases sg) (auto simp: is_number_signed)
qed

section \<open>The leftmost counter annotation\<close>

lemma exec_elim:
  assumes "exec r s = Some (pre, caps, rest)"
  shows "\<exists>t xs. s = pre @ t \<and> rmatch r t = (caps, rest) # xs
           \<and> (\<forall>i<length pre. rmatch r (drop i pre @ t) = [])"
  using rsearch_Some_elim[of r "[]" s pre caps rest] assms by (auto simp: exec_def)

lemma exec_intro:
  assumes "\<forall>i<length u. rmatch r (drop i u @ t) = []" and "rmatch r t = (caps, rest) # xs"
  shows "exec r (u @ t) = Some (u, caps, rest)"
  using rsearch_Some_intro[OF assms, of "[]"] by (simp add: exec_def)

lemma exec_None_iff: "exec r s = None \<longleftrightarrow> (\<forall>i\<le>length s. rmatch r (drop i s) = [])"
  by (simp add: exec_def rsearch_None_iff)

lemma canon_91: "canon x = 91 \<longleftrightarrow> x = 91"
  by (auto simp: canon_def)

lemma canon_32: "canon x = 32 \<longleftrightarrow> x = 32"
  by (auto simp: canon_def)

lemma tag_prefix_chars:
  assumes "tag_name l" and "map canon L = map canon l"
  shows "\<exists>L'. L = 91 # L' \<and> (\<forall>y\<in>set L'. y \<noteq> 91 \<and> y \<noteq> 32)"
proof -
  obtain l' where l: "l = 91 # l'" "\<forall>z\<in>set l'. canon z \<noteq> 91 \<and> canon z \<noteq> 32"
    using assms(1) by (cases l) (auto simp: tag_name_def list_all_iff)
  obtain l0 L' where L: "L = l0 # L'" "canon l0 = canon 91" "map canon L' = map canon l'"
    using assms(2) l(1) by (cases L) auto
  have l0: "l0 = 91" using L(2) by (simp add: canon_def split: if_splits)
  have "y \<noteq> 91 \<and> y \<noteq> 32" if "y \<in> set L'" for y
  proof -
    have "canon y \<in> set (map canon L')" using that by simp
    then obtain z where "z \<in> set l'" "canon y = canon z" unfolding L(3) by auto
    then have "canon y \<noteq> 91 \<and> canon y \<noteq> 32" using l(2) by simp
    then show ?thesis by (auto simp: canon_def)
  qed
  then show ?thesis using L(1) l0 by blast
qed

lemma tag_name_success: "tag_name (js ''[success::'')"
  by (simp add: tag_name_def js_def canon_def)

lemma success_prefix_chars:
  assumes "map canon L = map canon (js ''[success::'')"
  shows "\<exists>L'. L = 91 # L' \<and> (\<forall>y\<in>set L'. y \<noteq> 91 \<and> y \<noteq> 32)"
  by (rule tag_prefix_chars[OF tag_name_success assms])

lemma number_chars: "is_number sg c \<Longrightarrow> \<forall>y\<in>set c. y \<noteq> 91 \<and> y \<noteq> 32"
  by (cases c) (auto simp: is_number_def list_all_iff is_digit_def split: if_splits)

lemma append_eq_cases:
  assumes "a @ b = tk @ rest"
  shows "(\<exists>us. a = tk @ us) \<or> (\<exists>us. us \<noteq> [] \<and> a @ us = tk \<and> b = us @ rest)"
proof -
  from assms obtain us where "a = tk @ us \<and> us @ b = rest \<or> a @ us = tk \<and> b = us @ rest"
    unfolding append_eq_append_conv2 by blast
  then show ?thesis by (cases "us = []") auto
qed

lemma tag_stable:
  assumes l: "tag_name l"
    and m: "rmatch (tag_rx l sg) (a @ x # v) \<noteq> []" and a: "a \<noteq> []"
    and x: "x = 91 \<or> x = 32"
  shows "\<exists>c a'. \<forall>w. rmatch (tag_rx l sg) (a @ w) = [([c], a' @ w)]"
proof -
  obtain m0 ms where "rmatch (tag_rx l sg) (a @ x # v) = m0 # ms"
    using m by (cases "rmatch (tag_rx l sg) (a @ x # v)") auto
  from tag_sound[OF this] obtain L c rest where
    s: "a @ x # v = L @ c @ 93 # rest" and L: "map canon L = map canon l"
    and c: "is_number sg c"
    by blast
  obtain L' where L': "L = 91 # L'" "\<forall>y\<in>set L'. y \<noteq> 91 \<and> y \<noteq> 32"
    using tag_prefix_chars[OF l L] by blast
  have tail: "\<forall>y\<in>set (L' @ c @ [93]). y \<noteq> 91 \<and> y \<noteq> 32"
    using L'(2) number_chars[OF c] by auto
  have "a @ x # v = (L @ c @ [93]) @ rest" using s by simp
  from append_eq_cases[OF this]
  consider us where "a = (L @ c @ [93]) @ us"
    | us where "a @ us = L @ c @ [93]" "x # v = us @ rest" "us \<noteq> []"
    by blast
  then show ?thesis
  proof cases
    case 1
    have "rmatch (tag_rx l sg) (a @ w) = [([c], us @ w)]" for w
      using tag_complete[OF L c, of "us @ w"] 1 by simp
    then show ?thesis by blast
  next
    case 2
    then obtain us' where us: "us = x # us'" by (cases us) auto
    obtain a0 a1 where a01: "a = a0 # a1" using a by (cases a) auto
    have "a1 @ x # us' = L' @ c @ [93]"
      using 2(1) us a01 L'(1) by simp
    then have "x \<in> set (L' @ c @ [93])"
      by (metis in_set_conv_decomp)
    then show ?thesis using tail x by blast
  qed
qed

lemma success_stable:
  assumes m: "rmatch (success_rx sg) (a @ x # v) \<noteq> []" and a: "a \<noteq> []"
    and x: "x = 91 \<or> x = 32"
  shows "\<exists>c a'. \<forall>w. rmatch (success_rx sg) (a @ w) = [([c], a' @ w)]"
  using m a x unfolding success_rx_tag by (rule tag_stable[OF tag_name_success])

lemma tag_first_char:
  assumes "tag_name l" and "rmatch (tag_rx l sg) (y # t) \<noteq> []"
  shows "y = 91"
proof -
  obtain m0 ms where "rmatch (tag_rx l sg) (y # t) = m0 # ms"
    using assms(2) by (cases "rmatch (tag_rx l sg) (y # t)") auto
  from tag_sound[OF this] obtain L c rest where
    s: "y # t = L @ c @ 93 # rest" and L: "map canon L = map canon l"
    by blast
  then show ?thesis using tag_prefix_chars[OF assms(1) L] by auto
qed

lemma success_first_char:
  assumes "rmatch (success_rx sg) (y # t) \<noteq> []"
  shows "y = 91"
  using assms unfolding success_rx_tag by (rule tag_first_char[OF tag_name_success])

lemma leftmost_tag:
  assumes l: "tag_name l"
    and nb: "\<forall>i<length pre. rmatch (tag_rx l sg) (drop i pre @ w0) = []"
    and L: "map canon L = map canon l" and c: "is_number sg c"
  shows "exec (tag_rx l sg) (pre @ L @ c @ 93 # rest) = Some (pre, [c], rest)"
proof (rule exec_intro)
  show "rmatch (tag_rx l sg) (L @ c @ 93 # rest) = [([c], rest)]"
    by (rule tag_complete[OF L c])
  obtain L' where L': "L = 91 # L'" using tag_prefix_chars[OF l L] by blast
  show "\<forall>i<length pre. rmatch (tag_rx l sg) (drop i pre @ L @ c @ 93 # rest) = []"
  proof (intro allI impI)
    fix i assume i: "i < length pre"
    show "rmatch (tag_rx l sg) (drop i pre @ L @ c @ 93 # rest) = []"
    proof (rule ccontr)
      assume "rmatch (tag_rx l sg) (drop i pre @ L @ c @ 93 # rest) \<noteq> []"
      then have "rmatch (tag_rx l sg) (drop i pre @ 91 # (L' @ c @ 93 # rest)) \<noteq> []"
        using L' by simp
      from tag_stable[OF l this] i obtain c' a' where
        "\<forall>w. rmatch (tag_rx l sg) (drop i pre @ w) = [([c'], a' @ w)]"
        by auto
      then show False using nb i by auto
    qed
  qed
qed

lemma leftmost_success:
  assumes nb: "\<forall>i<length pre. rmatch (success_rx sg) (drop i pre @ w0) = []"
    and L: "map canon L = map canon (js ''[success::'')" and c: "is_number sg c"
  shows "exec (success_rx sg) (pre @ L @ c @ 93 # rest) = Some (pre, [c], rest)"
  using nb L c unfolding success_rx_tag by (rule leftmost_tag[OF tag_name_success])

lemma leftmost_tag_after_space:
  assumes l: "tag_name l"
    and nb: "\<forall>i<length u. rmatch (tag_rx l sg) (drop i u @ w0) = []"
    and L: "map canon L = map canon l" and c: "is_number sg c"
  shows "exec (tag_rx l sg) (u @ 32 # L @ c @ 93 # rest) = Some (u @ [32], [c], rest)"
proof -
  have "exec (tag_rx l sg) ((u @ [32]) @ L @ c @ 93 # rest) = Some (u @ [32], [c], rest)"
  proof (rule exec_intro)
    show "rmatch (tag_rx l sg) (L @ c @ 93 # rest) = [([c], rest)]"
      by (rule tag_complete[OF L c])
    show "\<forall>i<length (u @ [32]). rmatch (tag_rx l sg) (drop i (u @ [32]) @ L @ c @ 93 # rest) = []"
    proof (intro allI impI)
      fix i assume i: "i < length (u @ [32])"
      show "rmatch (tag_rx l sg) (drop i (u @ [32]) @ L @ c @ 93 # rest) = []"
      proof (cases "i < length u")
        case True
        show ?thesis
        proof (rule ccontr)
          assume "rmatch (tag_rx l sg) (drop i (u @ [32]) @ L @ c @ 93 # rest) \<noteq> []"
          then have "rmatch (tag_rx l sg) (drop i u @ 32 # (L @ c @ 93 # rest)) \<noteq> []"
            using True by simp
          from tag_stable[OF l this] True obtain c' a' where
            "\<forall>w. rmatch (tag_rx l sg) (drop i u @ w) = [([c'], a' @ w)]"
            by auto
          then show False using nb True by auto
        qed
      next
        case False
        then have "i = length u" using i by simp
        then have "drop i (u @ [32]) @ L @ c @ 93 # rest = 32 # (L @ c @ 93 # rest)" by simp
        then show ?thesis using tag_first_char[OF l, of sg 32 "L @ c @ 93 # rest"] by auto
      qed
    qed
  qed
  then show ?thesis by simp
qed

lemma leftmost_success_after_space:
  assumes nb: "\<forall>i<length u. rmatch (success_rx sg) (drop i u @ w0) = []"
    and L: "map canon L = map canon (js ''[success::'')" and c: "is_number sg c"
  shows "exec (success_rx sg) (u @ 32 # L @ c @ 93 # rest) = Some (u @ [32], [c], rest)"
  using nb L c unfolding success_rx_tag by (rule leftmost_tag_after_space[OF tag_name_success])

lemma success_unsigned_signed:
  assumes "rmatch (success_rx False) s = m # ms"
  shows "rmatch (success_rx True) s = m # ms"
proof -
  from success_sound[OF assms] obtain L c rest where
    s: "s = L @ c @ 93 # rest" "m = ([c], rest)" "ms = []"
      "map canon L = map canon (js ''[success::'')" "is_number False c"
    by blast
  then have "is_number True c" by (simp add: is_number_signed)
  from success_complete[OF s(4) this, of rest] show ?thesis using s by simp
qed

lemma bracket_unsigned_signed:
  assumes "rmatch (bracket_rx False) s = m # ms"
  shows "rmatch (bracket_rx True) s = m # ms"
proof -
  from bracket_sound[OF assms] obtain c ws where
    s: "s = 91 # c @ 93 # ws" "m = ([c], [])" "ms = []" "is_number False c" "list_all is_space ws"
    by blast
  then have "is_number True c" by (simp add: is_number_signed)
  from bracket_complete[OF this s(5)] show ?thesis using s by simp
qed

lemma exec_tag_shape:
  assumes "exec (tag_rx l sg) ln = Some (pre, caps, rest)"
  shows "\<exists>L c. caps = [c] \<and> ln = pre @ L @ c @ 93 # rest
           \<and> map canon L = map canon l \<and> is_number sg c
           \<and> (\<forall>i<length pre. rmatch (tag_rx l sg) (drop i pre @ L @ c @ 93 # rest) = [])"
proof -
  from exec_elim[OF assms] obtain t xs where
    t: "ln = pre @ t" "rmatch (tag_rx l sg) t = (caps, rest) # xs"
       "\<forall>i<length pre. rmatch (tag_rx l sg) (drop i pre @ t) = []"
    by blast
  from tag_sound[OF t(2)] obtain L c rest' where
    "t = L @ c @ 93 # rest'" "(caps, rest) = ([c], rest')"
    "map canon L = map canon l" "is_number sg c"
    by blast
  then show ?thesis using t by auto
qed

lemma exec_success_shape:
  assumes "exec (success_rx sg) ln = Some (pre, caps, rest)"
  shows "\<exists>L c. caps = [c] \<and> ln = pre @ L @ c @ 93 # rest
           \<and> map canon L = map canon (js ''[success::'') \<and> is_number sg c
           \<and> (\<forall>i<length pre. rmatch (success_rx sg) (drop i pre @ L @ c @ 93 # rest) = [])"
  using assms unfolding success_rx_tag by (rule exec_tag_shape)

lemma exec_bracket_shape:
  assumes "exec (bracket_rx sg) ln = Some (pre, caps, rest)"
  shows "\<exists>c ws. caps = [c] \<and> rest = [] \<and> ln = pre @ 91 # c @ 93 # ws
           \<and> is_number sg c \<and> list_all is_space ws
           \<and> (\<forall>i<length pre. rmatch (bracket_rx sg) (drop i pre @ 91 # c @ 93 # ws) = [])"
proof -
  from exec_elim[OF assms] obtain t xs where
    t: "ln = pre @ t" "rmatch (bracket_rx sg) t = (caps, rest) # xs"
       "\<forall>i<length pre. rmatch (bracket_rx sg) (drop i pre @ t) = []"
    by blast
  from bracket_sound[OF t(2)] obtain c ws where
    "t = 91 # c @ 93 # ws" "(caps, rest) = ([c], [])" "is_number sg c" "list_all is_space ws"
    by blast
  then show ?thesis using t by auto
qed

lemma test_success_test: "test rx_success_test s = test (success_rx False) s"
proof (rule test_cong)
  fix t
  show "map snd (rmatch rx_success_test t) = map snd (rmatch (success_rx False) t)"
    unfolding rx_success_test_def success_rx_def number_rx_def seqs.simps
    by (simp only: rests_Seq rests_Cap if_False) (simp add: js_def)
qed

lemma count_of_success:
  "exec (success_rx True) ln = Some (pre, [c], rest) \<Longrightarrow> count_of ln = Some (parseInt c)"
  by (simp add: count_of_def capture1_def rx_success_eq)

lemma count_of_bracket:
  "exec (success_rx True) ln = None \<Longrightarrow> exec (bracket_rx True) ln = Some (pre, [c], rest) \<Longrightarrow>
     count_of ln = Some (parseInt c)"
  by (simp add: count_of_def capture1_def rx_success_eq rx_bracket_count_eq)

lemma success_tag_shape: "success_tag k = js ''[success::'' @ show_int k @ 93 # []"
  by (simp add: success_tag_def js_def)

lemma no_unsigned_before:
  assumes "\<forall>i<length pre. rmatch (success_rx True) (drop i pre @ t) = []"
  shows "\<forall>i<length pre. rmatch (success_rx False) (drop i pre @ t) = []"
proof (intro allI impI)
  fix i assume i: "i < length pre"
  show "rmatch (success_rx False) (drop i pre @ t) = []"
    using success_unsigned_signed[of "drop i pre @ t"] assms i
    by (cases "rmatch (success_rx False) (drop i pre @ t)") auto
qed

lemma no_unsigned_bracket_before:
  assumes "\<forall>i<length pre. rmatch (bracket_rx True) (drop i pre @ t) = []"
  shows "\<forall>i<length pre. rmatch (bracket_rx False) (drop i pre @ t) = []"
proof (intro allI impI)
  fix i assume i: "i < length pre"
  show "rmatch (bracket_rx False) (drop i pre @ t) = []"
    using bracket_unsigned_signed[of "drop i pre @ t"] assms i
    by (cases "rmatch (bracket_rx False) (drop i pre @ t)") auto
qed

lemma no_unsigned_success:
  assumes "exec (success_rx True) ln = None"
  shows "exec (success_rx False) ln = None"
  unfolding exec_None_iff
proof (intro allI impI)
  fix i assume "i \<le> length ln"
  then have "rmatch (success_rx True) (drop i ln) = []"
    using assms by (simp add: exec_None_iff)
  then show "rmatch (success_rx False) (drop i ln) = []"
    using success_unsigned_signed[of "drop i ln"]
    by (cases "rmatch (success_rx False) (drop i ln)") auto
qed

lemma decrement_unsigned_success:
  assumes e: "exec (success_rx True) ln = Some (pre, [c], rest)" and u: "is_number False c"
  shows "count_of (decrement_line ln) = Some (max 0 (parseInt c - 1))"
proof -
  let ?k = "max 0 (parseInt c - 1)"
  from exec_success_shape[OF e] obtain L where
    ln: "ln = pre @ L @ c @ 93 # rest" and L: "map canon L = map canon (js ''[success::'')"
    and nb: "\<forall>i<length pre. rmatch (success_rx True) (drop i pre @ L @ c @ 93 # rest) = []"
    by auto
  have "exec (success_rx False) (pre @ L @ c @ 93 # rest) = Some (pre, [c], rest)"
    by (rule exec_intro[OF no_unsigned_before[OF nb] success_complete[OF L u]])
  then have e2: "exec (success_rx False) ln = Some (pre, [c], rest)" using ln by simp
  have t1: "test rx_success_test ln"
    unfolding test_success_test using e2 by (simp add: test_def)
  have d: "decrement_line ln = pre @ js ''[success::'' @ show_int ?k @ 93 # rest"
    using e2 t1 by (simp add: decrement_line_def replace_first_def
        rx_success_digits_eq success_tag_shape)
  have "exec (success_rx True) (pre @ js ''[success::'' @ show_int ?k @ 93 # rest)
      = Some (pre, [show_int ?k], rest)"
    by (rule leftmost_success[OF nb refl show_int_number]) simp
  then have "count_of (decrement_line ln) = Some (parseInt (show_int ?k))"
    unfolding d by (rule count_of_success)
  then show ?thesis by (simp add: parseInt_show_int)
qed

lemma decrement_unsigned_bracket:
  assumes n: "exec (success_rx True) ln = None"
    and e: "exec (bracket_rx True) ln = Some (pre, [c], rest)" and u: "is_number False c"
  shows "count_of (decrement_line ln) = Some (max 0 (parseInt c - 1))"
proof -
  let ?k = "max 0 (parseInt c - 1)"
  from exec_bracket_shape[OF e] obtain ws where
    ln: "ln = pre @ 91 # c @ 93 # ws" and ws: "list_all is_space ws"
    and nb: "\<forall>i<length pre. rmatch (bracket_rx True) (drop i pre @ 91 # c @ 93 # ws) = []"
    by auto
  have "exec (bracket_rx False) (pre @ 91 # c @ 93 # ws) = Some (pre, [c], [])"
    by (rule exec_intro[OF no_unsigned_bracket_before[OF nb] bracket_complete[OF u ws]])
  then have e2: "exec (bracket_rx False) ln = Some (pre, [c], [])" using ln by simp
  have t1: "\<not> test rx_success_test ln"
    unfolding test_success_test using no_unsigned_success[OF n] by (simp add: test_def)
  have t2: "test rx_bracket_digits ln"
    using e2 by (simp add: rx_bracket_digits_eq test_def)
  have d: "decrement_line ln = pre @ js ''[success::'' @ show_int ?k @ 93 # []"
    using e2 t1 t2
    by (simp add: decrement_line_def replace_first_def capture1_def
        rx_bracket_digits_eq success_tag_shape)
  have nbs: "\<forall>i<length pre. rmatch (success_rx True) (drop i pre @ 91 # c @ 93 # ws) = []"
  proof (intro allI impI)
    fix i assume i: "i < length pre"
    have "i \<le> length ln" using i ln by simp
    moreover have "\<forall>j\<le>length ln. rmatch (success_rx True) (drop j ln) = []"
      using n by (simp only: exec_None_iff)
    ultimately have "rmatch (success_rx True) (drop i ln) = []" by blast
    moreover have "drop i ln = drop i pre @ 91 # c @ 93 # ws" using i ln by simp
    ultimately show "rmatch (success_rx True) (drop i pre @ 91 # c @ 93 # ws) = []" by simp
  qed
  have "exec (success_rx True) (pre @ js ''[success::'' @ show_int ?k @ 93 # [])
      = Some (pre, [show_int ?k], [])"
    by (rule leftmost_success[OF nbs refl show_int_number]) simp
  then have "count_of (decrement_line ln) = Some (parseInt (show_int ?k))"
    unfolding d by (rule count_of_success)
  then show ?thesis by (simp add: parseInt_show_int)
qed

lemma split_shorter:
  assumes "pre @ X = pre2 @ Y" and "length pre2 < length pre"
  shows "Y = drop (length pre2) pre @ X"
proof -
  have "drop (length pre2) (pre @ X) = drop (length pre2) (pre2 @ Y)"
    using assms(1) by simp
  then show ?thesis using assms(2) by simp
qed

lemma split_longer:
  assumes "pre @ X = pre2 @ Y" and "length pre < length pre2"
  shows "\<exists>a. a \<noteq> [] \<and> pre2 = pre @ a \<and> X = a @ Y"
proof -
  have X: "X = drop (length pre) pre2 @ Y"
    using split_shorter[OF assms(1)[symmetric] assms(2)] .
  have "take (length pre) (pre @ X) = take (length pre) (pre2 @ Y)"
    using assms(1) by simp
  then have "pre = take (length pre) pre2" using assms(2) by simp
  then have "pre2 = pre @ drop (length pre) pre2"
    by (metis append_take_drop_id)
  moreover have "drop (length pre) pre2 \<noteq> []" using assms(2) by simp
  ultimately show ?thesis using X by blast
qed

lemma later_bracket_after_token:
  assumes eq: "pre @ tk @ rest = pre2 @ 91 # Y" and len: "length pre < length pre2"
    and tk: "\<forall>y\<in>set (tl tk). y \<noteq> 91"
  shows "\<exists>mid. pre2 = pre @ tk @ mid"
proof -
  from split_longer[OF eq len] obtain a where
    a: "a \<noteq> []" "pre2 = pre @ a" "tk @ rest = a @ 91 # Y"
    by blast
  from append_eq_cases[OF a(3)[symmetric]]
  consider us where "a = tk @ us" | us where "us \<noteq> []" "a @ us = tk" "91 # Y = us @ rest"
    by blast
  then show ?thesis
  proof cases
    case 1
    then show ?thesis using a(2) by simp
  next
    case 2
    then obtain us' where "us = 91 # us'" by (cases us) auto
    then have "tk = a @ 91 # us'" using 2(2) by simp
    moreover obtain a0 a1 where "a = a0 # a1" using a(1) by (cases a) auto
    ultimately have "91 \<in> set (tl tk)" by simp
    then show ?thesis using tk by blast
  qed
qed

lemma token_tail:
  assumes "map canon L = map canon (js ''[success::'')" and "is_number sg c"
  shows "\<exists>L'. L = 91 # L' \<and> L' \<noteq> [] \<and> canon (hd L') = 83
           \<and> (\<forall>y\<in>set (tl (L @ c @ [93])). y \<noteq> 91)"
proof -
  have P: "map canon (js ''[success::'') = [91, 83, 85, 67, 67, 69, 83, 83, 58, 58]"
    by (simp add: js_def canon_def)
  obtain L' where L': "L = 91 # L'" "\<forall>y\<in>set L'. y \<noteq> 91 \<and> y \<noteq> 32"
    using success_prefix_chars[OF assms(1)] by blast
  have "map canon L' = [83, 85, 67, 67, 69, 83, 83, 58, 58]"
    using assms(1) L'(1) unfolding P by simp
  then have "L' \<noteq> [] \<and> canon (hd L') = 83" by (cases L') auto
  then show ?thesis using L' number_chars[OF assms(2)] by auto
qed

lemma bracket_tail:
  assumes "is_number sg c" and "list_all is_space ws"
  shows "\<forall>y\<in>set (c @ 93 # ws). y \<noteq> 91"
  using number_chars[OF assms(1)] assms(2) by (auto simp: list_all_iff is_space_def)

lemma trimEnd_append_nonspace:
  assumes "\<not> is_space x"
  shows "trimEnd (a @ x # b) = a @ x # trimEnd b"
proof (cases "list_all is_space b")
  case True
  have "dropWhile is_space (rev b @ x # rev a) = dropWhile is_space (x # rev a)"
    by (rule dropWhile_append2) (use True in \<open>auto simp: list_all_iff\<close>)
  then have "dropWhile is_space (rev b @ x # rev a) = x # rev a"
    using assms by simp
  moreover have "dropWhile is_space (rev b) = []" using True by (simp add: list_all_iff)
  ultimately show ?thesis by (simp add: trimEnd_def)
next
  case False
  then obtain y where "y \<in> set (rev b)" "\<not> is_space y" by (auto simp: list_all_iff)
  then have "dropWhile is_space (rev b @ x # rev a) = dropWhile is_space (rev b) @ x # rev a"
    by (simp add: dropWhile_append1)
  then show ?thesis by (simp add: trimEnd_def)
qed

lemma trimEnd_prefix: "\<exists>w. s = trimEnd s @ w"
proof -
  have "rev s = takeWhile is_space (rev s) @ dropWhile is_space (rev s)" by simp
  then have "s = rev (dropWhile is_space (rev s)) @ rev (takeWhile is_space (rev s))"
    by (metis rev_append rev_rev_ident)
  then show ?thesis unfolding trimEnd_def by blast
qed

lemma not_space_93: "\<not> is_space 93"
  by (simp add: is_space_def)

lemma decrement_keeps_signed_success:
  assumes e: "exec (success_rx True) ln = Some (pre, [c], rest)" and c: "c = 45 # d"
  shows "count_of (decrement_line ln) = Some (parseInt c)"
proof -
  from exec_success_shape[OF e] obtain L where
    ln: "ln = pre @ L @ c @ 93 # rest" and L: "map canon L = map canon (js ''[success::'')"
    and num: "is_number True c"
    and nb: "\<forall>i<length pre. rmatch (success_rx True) (drop i pre @ L @ c @ 93 # rest) = []"
    by auto
  let ?tk = "L @ c @ [93]"
  have ln': "ln = pre @ ?tk @ rest" using ln by simp
  obtain L' where L': "L = 91 # L'" "L' \<noteq> []" "canon (hd L') = 83"
    "\<forall>y\<in>set (tl ?tk). y \<noteq> 91"
    using token_tail[OF L num] by blast
  have here: "rmatch (success_rx True) (L @ c @ 93 # rest) = [([c], rest)]"
    by (rule success_complete[OF L num])
  have key: "\<exists>rest'. decrement_line ln = pre @ L @ c @ 93 # rest'"
  proof (cases "exec (success_rx False) ln")
    case (Some r2)
    obtain pre2 caps2 rest2 where r2: "r2 = (pre2, caps2, rest2)" by (cases r2) auto
    from exec_success_shape[OF Some[unfolded r2]] obtain L2 c2 where
      s2: "caps2 = [c2]" "ln = pre2 @ L2 @ c2 @ 93 # rest2"
        "map canon L2 = map canon (js ''[success::'')" "is_number False c2"
      by auto
    have m2: "rmatch (success_rx True) (L2 @ c2 @ 93 # rest2) = [([c2], rest2)]"
      using success_complete[OF s2(3), of True c2 rest2] s2(4) by (simp add: is_number_signed)
    obtain L2' where L2': "L2 = 91 # L2'" using success_prefix_chars[OF s2(3)] by blast
    have t1: "test rx_success_test ln"
      unfolding test_success_test using Some by (simp add: test_def)
    have d: "decrement_line ln = pre2 @ success_tag (max 0 (parseInt c2 - 1)) @ rest2"
      using Some r2 s2(1) t1
      by (simp add: decrement_line_def replace_first_def rx_success_digits_eq)
    have eq: "pre @ ?tk @ rest = pre2 @ 91 # (L2' @ c2 @ 93 # rest2)"
      using ln' s2(2) L2' by simp
    have "\<exists>mid. pre2 = pre @ ?tk @ mid"
    proof -
      consider "length pre2 < length pre" | "length pre2 = length pre" | "length pre < length pre2"
        by linarith
      then show ?thesis
      proof cases
        case 1
        have "91 # (L2' @ c2 @ 93 # rest2) = drop (length pre2) pre @ ?tk @ rest"
          by (rule split_shorter[OF eq 1])
        then have "rmatch (success_rx True) (drop (length pre2) pre @ L @ c @ 93 # rest) \<noteq> []"
          using m2 L2' by simp
        then show ?thesis using nb 1 by blast
      next
        case 2
        then have "L @ c @ 93 # rest = L2 @ c2 @ 93 # rest2"
          using eq L2' by simp
        then have "c = c2" using here m2 by simp
        then show ?thesis using c s2(4) not_digit_45 by (auto simp: is_number_unsigned)
      next
        case 3
        show ?thesis by (rule later_bracket_after_token[OF eq 3 L'(4)])
      qed
    qed
    then obtain mid where "pre2 = pre @ ?tk @ mid" by blast
    then show ?thesis using d by simp
  next
    case None
    have t1: "\<not> test rx_success_test ln"
      unfolding test_success_test using None by (simp add: test_def)
    show ?thesis
    proof (cases "exec (bracket_rx False) ln")
      case (Some r3)
      obtain pre3 caps3 rest3 where r3: "r3 = (pre3, caps3, rest3)" by (cases r3) auto
      from exec_bracket_shape[OF Some[unfolded r3]] obtain c3 ws where
        s3: "caps3 = [c3]" "rest3 = []" "ln = pre3 @ 91 # c3 @ 93 # ws"
          "is_number False c3" "list_all is_space ws"
        by auto
      have t2: "test rx_bracket_digits ln"
        using Some by (simp add: rx_bracket_digits_eq test_def)
      have d: "decrement_line ln = pre3 @ success_tag (max 0 (parseInt c3 - 1))"
        using Some r3 s3(1,2) t1 t2
        by (simp add: decrement_line_def replace_first_def capture1_def rx_bracket_digits_eq)
      have eq: "pre @ ?tk @ rest = pre3 @ 91 # (c3 @ 93 # ws)"
        using ln' s3(3) by simp
      have c3: "c3 \<noteq> []" "list_all is_digit c3"
        using s3(4) by (simp_all add: is_number_unsigned)
      have "\<exists>mid. pre3 = pre @ ?tk @ mid"
      proof -
        consider "length pre3 < length pre" | "length pre3 = length pre"
          | "length pre < length pre3"
          by linarith
        then show ?thesis
        proof cases
          case 1
          have "91 # (c3 @ 93 # ws) = drop (length pre3) pre @ ?tk @ rest"
            by (rule split_shorter[OF eq 1])
          moreover obtain a0 a1 where "drop (length pre3) pre = a0 # a1"
            using 1 by (cases "drop (length pre3) pre") auto
          ultimately have "c3 @ 93 # ws = a1 @ 91 # L' @ c @ 93 # rest"
            using L'(1) by simp
          then have "91 \<in> set (c3 @ 93 # ws)" by simp
          then show ?thesis using bracket_tail[OF s3(4) s3(5)] by blast
        next
          case 2
          then have "91 # L' @ c @ 93 # rest = 91 # c3 @ 93 # ws"
            using eq L'(1) by simp
          then have "hd L' = hd c3" using L'(2) c3(1) by (cases L'; cases c3) auto
          moreover have "is_digit (hd c3)" using c3 by (cases c3) auto
          ultimately show ?thesis using L'(3) by (auto simp: canon_def is_digit_def)
        next
          case 3
          show ?thesis by (rule later_bracket_after_token[OF eq 3 L'(4)])
        qed
      qed
      then obtain mid where "pre3 = pre @ ?tk @ mid" by blast
      then show ?thesis using d by simp
    next
      case None
      have t2: "\<not> test rx_bracket_digits ln"
        using None by (simp add: rx_bracket_digits_eq test_def)
      have "decrement_line ln = trimEnd ln @ js '' [success::0]''"
        using t1 t2 by (simp add: decrement_line_def)
      moreover have "trimEnd ln = pre @ L @ c @ 93 # trimEnd rest"
        using trimEnd_append_nonspace[OF not_space_93, of "pre @ L @ c" rest] ln by simp
      ultimately show ?thesis by simp
    qed
  qed
  then obtain rest' where d: "decrement_line ln = pre @ L @ c @ 93 # rest'" by blast
  have "exec (success_rx True) (pre @ L @ c @ 93 # rest') = Some (pre, [c], rest')"
    by (rule leftmost_success[OF nb L num])
  then show ?thesis unfolding d by (rule count_of_success)
qed

lemma decrement_signed_bracket:
  assumes n: "exec (success_rx True) ln = None"
    and e: "exec (bracket_rx True) ln = Some (pre, [c], rest)" and c: "c = 45 # d"
  shows "count_of (decrement_line ln) = Some 0"
proof -
  from exec_bracket_shape[OF e] obtain ws where
    ln: "ln = pre @ 91 # c @ 93 # ws" and num: "is_number True c" and ws: "list_all is_space ws"
    and nb: "\<forall>i<length pre. rmatch (bracket_rx True) (drop i pre @ 91 # c @ 93 # ws) = []"
    by auto
  have t1: "\<not> test rx_success_test ln"
    unfolding test_success_test using no_unsigned_success[OF n] by (simp add: test_def)
  have "exec (bracket_rx False) ln = None"
  proof (cases "exec (bracket_rx False) ln")
    case None
    then show ?thesis .
  next
    case (Some r)
    obtain q caps2 rest2 where r: "r = (q, caps2, rest2)" by (cases r) auto
    from exec_bracket_shape[OF Some[unfolded r]] obtain c2 ws2 where
      s2: "ln = q @ 91 # c2 @ 93 # ws2" "is_number False c2" "list_all is_space ws2"
      by auto
    have c2: "c2 \<noteq> []" "list_all is_digit c2"
      using s2(2) by (simp_all add: is_number_unsigned)
    have m2: "rmatch (bracket_rx True) (91 # c2 @ 93 # ws2) = [([c2], [])]"
      using bracket_complete[of True c2 ws2] s2(2,3) by (simp add: is_number_signed)
    have eq: "pre @ 91 # c @ 93 # ws = q @ 91 # c2 @ 93 # ws2"
      using ln s2(1) by simp
    consider "length q < length pre" | "length q = length pre" | "length pre < length q"
      by linarith
    then have False
    proof cases
      case 1
      have "91 # c2 @ 93 # ws2 = drop (length q) pre @ 91 # c @ 93 # ws"
        by (rule split_shorter[OF eq 1])
      then have "rmatch (bracket_rx True) (drop (length q) pre @ 91 # c @ 93 # ws) \<noteq> []"
        using m2 by simp
      then show False using nb 1 by blast
    next
      case 2
      then have "c @ 93 # ws = c2 @ 93 # ws2" using eq by simp
      then have "hd c2 = 45" using c c2(1) by (cases c2) auto
      then show False using c2 not_digit_45 by (cases c2) auto
    next
      case 3
      from split_longer[OF eq 3] obtain a where
        a: "a \<noteq> []" "91 # c @ 93 # ws = a @ 91 # c2 @ 93 # ws2"
        by blast
      then obtain a1 where "c @ 93 # ws = a1 @ 91 # c2 @ 93 # ws2"
        by (cases a) auto
      then have "91 \<in> set (c @ 93 # ws)" by simp
      then show False using bracket_tail[OF num ws] by blast
    qed
    then show ?thesis ..
  qed
  then have t2: "\<not> test rx_bracket_digits ln"
    by (simp add: rx_bracket_digits_eq test_def)
  have d: "decrement_line ln = trimEnd ln @ 32 # js ''[success::'' @ [48] @ 93 # []"
    using t1 t2 by (simp add: decrement_line_def js_def)
  obtain w0 where w0: "ln = trimEnd ln @ w0" using trimEnd_prefix by blast
  have nbs: "\<forall>i<length (trimEnd ln). rmatch (success_rx True) (drop i (trimEnd ln) @ w0) = []"
  proof (intro allI impI)
    fix i assume i: "i < length (trimEnd ln)"
    have "length (trimEnd ln) \<le> length ln"
      using arg_cong[OF w0, of length] by simp
    then have "i \<le> length ln" using i by simp
    moreover have "\<forall>j\<le>length ln. rmatch (success_rx True) (drop j ln) = []"
      using n by (simp only: exec_None_iff)
    ultimately have "rmatch (success_rx True) (drop i ln) = []" by blast
    moreover have "drop i ln = drop i (trimEnd ln) @ w0"
      using i by (subst w0) simp
    ultimately show "rmatch (success_rx True) (drop i (trimEnd ln) @ w0) = []" by simp
  qed
  have z: "is_number True [48]" by (simp add: is_number_def is_digit_def)
  have "exec (success_rx True) (trimEnd ln @ 32 # js ''[success::'' @ [48] @ 93 # [])
      = Some (trimEnd ln @ [32], [[48]], [])"
    by (rule leftmost_success_after_space[OF nbs refl z])
  then have "count_of (decrement_line ln) = Some (parseInt [48])"
    unfolding d by (rule count_of_success)
  then show ?thesis by (simp add: parseInt_def digits_value_def is_digit_def)
qed

lemma parseInt_minus:
  assumes "is_number False d"
  shows "parseInt (45 # d) \<le> 0"
proof -
  have "list_all is_digit d" using assms by (simp add: is_number_unsigned)
  then show ?thesis
    using digits_value_nonneg[of d] by (simp add: parseInt_def takeWhile_all)
qed

lemma decrement_count:
  assumes N: "count_of ln = Some N" and pos: "0 \<le> N"
  shows "count_of (decrement_line ln) = Some (max 0 (N - 1))"
proof (cases "exec (success_rx True) ln")
  case (Some r)
  obtain pre caps rest where r: "r = (pre, caps, rest)" by (cases r) auto
  from exec_success_shape[OF Some[unfolded r]] obtain c where
    c: "caps = [c]" "is_number True c"
    by auto
  have e: "exec (success_rx True) ln = Some (pre, [c], rest)" using Some r c(1) by simp
  have Nc: "N = parseInt c" using count_of_success[OF e] N by simp
  from c(2) consider "is_number False c" | d where "c = 45 # d" "is_number False d"
    unfolding is_number_signed by blast
  then show ?thesis
  proof cases
    case 1
    show ?thesis using decrement_unsigned_success[OF e 1] Nc by simp
  next
    case 2
    have "N = 0" using parseInt_minus[OF 2(2)] 2(1) Nc pos by simp
    then show ?thesis using decrement_keeps_signed_success[OF e 2(1)] Nc by simp
  qed
next
  case None
  show ?thesis
  proof (cases "exec (bracket_rx True) ln")
    case None
    then have "count_of ln = None"
      using \<open>exec (success_rx True) ln = None\<close>
      by (simp add: count_of_def capture1_def rx_success_eq rx_bracket_count_eq)
    then show ?thesis using N by simp
  next
    case (Some r)
    obtain pre caps rest where r: "r = (pre, caps, rest)" by (cases r) auto
    from exec_bracket_shape[OF Some[unfolded r]] obtain c where
      c: "caps = [c]" "is_number True c"
      by auto
    have e: "exec (bracket_rx True) ln = Some (pre, [c], rest)" using Some r c(1) by simp
    have Nc: "N = parseInt c" using count_of_bracket[OF None e] N by simp
    from c(2) consider "is_number False c" | d where "c = 45 # d" "is_number False d"
      unfolding is_number_signed by blast
    then show ?thesis
    proof cases
      case 1
      show ?thesis using decrement_unsigned_bracket[OF None e 1] Nc by simp
    next
      case 2
      have "N = 0" using parseInt_minus[OF 2(2)] 2(1) Nc pos by simp
      then show ?thesis using decrement_signed_bracket[OF None e 2(1)] by simp
    qed
  qed
qed

section \<open>Further facts about the operations\<close>

text \<open>
  \<open>parseTask\<close> always returns a record; \<open>_markEisenhowerTaskDone\<close> does not look at
  the expected line; a completion that does not update the streak writes the line with
  its streak annotations removed; and an increment of a positive counter below
  \<open>2 ^ 53 - 1\<close> is read back as one more.
\<close>

lemma parseTask_never_absent: "parseTask ln path lineNumber \<noteq> None"
  by (simp add: parseTask_def Let_def bool_is_undefined_def)

lemma parseTask_accumulatedCount:
  "parseTask ln path lineNumber = Some t \<Longrightarrow>
     accumulatedCount t = (if accumulated t then Some (or_zero (count_of ln)) else None)"
  by (auto simp: parseTask_def Let_def bool_is_undefined_def)

lemma markEisenhowerTaskDone_ignores_original:
  "markEisenhowerTaskDone v filePath lineNumber original1 =
     markEisenhowerTaskDone v filePath lineNumber original2"
  by (simp add: markEisenhowerTaskDone_def)

lemma no_update_writes_stripped_line:
  assumes "v filePath = Some text"
    and "line_at (split_lines text) (lineNumber - 1) = Some ln"
    and "ln \<noteq> []"
    and "trim ln = trim originalLine"
    and "parseTask ln filePath lineNumber = Some task"
    and "\<not> shouldUpdate (calculateStreakFromDates today yesterday (lastDoneDate task)
              (lastStreakDate task) (or_zero (currentStreak task)))"
  shows "markHabitTaskDoneWithDate True today yesterday v filePath lineNumber originalLine =
           (v(filePath \<mapsto> join_lines ((split_lines text)[nat (lineNumber - 1) :=
               with_last_done today ln])), HabitMarkedForToday)"
  using assms line_at_nth[OF assms(2)]
  by (simp add: markHabitTaskDoneWithDate_def Let_def falsy_def)

lemma increment_unsigned_success:
  assumes e: "exec (success_rx True) ln = Some (pre, [c], rest)" and u: "is_number False c"
  shows "count_of (increment_line ln) = Some (parseInt c + 1)"
proof -
  let ?k = "parseInt c + 1"
  from exec_success_shape[OF e] obtain L where
    ln: "ln = pre @ L @ c @ 93 # rest" and L: "map canon L = map canon (js ''[success::'')"
    and nb: "\<forall>i<length pre. rmatch (success_rx True) (drop i pre @ L @ c @ 93 # rest) = []"
    by auto
  have pos: "0 \<le> ?k"
  proof -
    have "list_all is_digit c" "c \<noteq> []" using u by (simp_all add: is_number_unsigned)
    then have "parseInt c = digits_value c"
      using not_digit_45 by (cases c) (auto simp: parseInt_def takeWhile_all)
    then show ?thesis using digits_value_nonneg[OF \<open>list_all is_digit c\<close>] by simp
  qed
  have "exec (success_rx False) (pre @ L @ c @ 93 # rest) = Some (pre, [c], rest)"
    by (rule exec_intro[OF no_unsigned_before[OF nb] success_complete[OF L u]])
  then have e2: "exec (success_rx False) ln = Some (pre, [c], rest)" using ln by simp
  have t1: "test rx_success_test ln"
    unfolding test_success_test using e2 by (simp add: test_def)
  have d: "increment_line ln = pre @ js ''[success::'' @ show_int ?k @ 93 # rest"
    using e2 t1 by (simp add: increment_line_def replace_first_def
        rx_success_digits_eq success_tag_shape)
  have "exec (success_rx True) (pre @ js ''[success::'' @ show_int ?k @ 93 # rest)
      = Some (pre, [show_int ?k], rest)"
    by (rule leftmost_success[OF nb refl show_int_number]) (rule pos)
  then have "count_of (increment_line ln) = Some (parseInt (show_int ?k))"
    unfolding d by (rule count_of_success)
  then show ?thesis using pos by (simp add: parseInt_show_int)
qed

lemma increment_unsigned_bracket:
  assumes n: "exec (success_rx True) ln = None"
    and e: "exec (bracket_rx True) ln = Some (pre, [c], rest)" and u: "is_number False c"
  shows "count_of (increment_line ln) = Some (parseInt c + 1)"
proof -
  let ?k = "parseInt c + 1"
  from exec_bracket_shape[OF e] obtain ws where
    ln: "ln = pre @ 91 # c @ 93 # ws" and ws: "list_all is_space ws"
    and nb: "\<forall>i<length pre. rmatch (bracket_rx True) (drop i pre @ 91 # c @ 93 # ws) = []"
    by auto
  have pos: "0 \<le> ?k"
  proof -
    have "list_all is_digit c" "c \<noteq> []" using u by (simp_all add: is_number_unsigned)
    then have "parseInt c = digits_value c"
      using not_digit_45 by (cases c) (auto simp: parseInt_def takeWhile_all)
    then show ?thesis using digits_value_nonneg[OF \<open>list_all is_digit c\<close>] by simp
  qed
  have "exec (bracket_rx False) (pre @ 91 # c @ 93 # ws) = Some (pre, [c], [])"
    by (rule exec_intro[OF no_unsigned_bracket_before[OF nb] bracket_complete[OF u ws]])
  then have e2: "exec (bracket_rx False) ln = Some (pre, [c], [])" using ln by simp
  have t1: "\<not> test rx_success_test ln"
    unfolding test_success_test using no_unsigned_success[OF n] by (simp add: test_def)
  have t2: "test rx_bracket_test ln"
    unfolding test_bracket_digits[symmetric] using e2 by (simp add: rx_bracket_digits_eq test_def)
  have d: "increment_line ln = pre @ js ''[success::'' @ show_int ?k @ 93 # []"
    using e2 t1 t2
    by (simp add: increment_line_def replace_first_def capture1_def
        rx_bracket_digits_eq success_tag_shape)
  have nbs: "\<forall>i<length pre. rmatch (success_rx True) (drop i pre @ 91 # c @ 93 # ws) = []"
  proof (intro allI impI)
    fix i assume i: "i < length pre"
    have "i \<le> length ln" using i ln by simp
    moreover have "\<forall>j\<le>length ln. rmatch (success_rx True) (drop j ln) = []"
      using n by (simp only: exec_None_iff)
    ultimately have "rmatch (success_rx True) (drop i ln) = []" by blast
    moreover have "drop i ln = drop i pre @ 91 # c @ 93 # ws" using i ln by simp
    ultimately show "rmatch (success_rx True) (drop i pre @ 91 # c @ 93 # ws) = []" by simp
  qed
  have "exec (success_rx True) (pre @ js ''[success::'' @ show_int ?k @ 93 # [])
      = Some (pre, [show_int ?k], [])"
    by (rule leftmost_success[OF nbs refl show_int_number]) (rule pos)
  then have "count_of (increment_line ln) = Some (parseInt (show_int ?k))"
    unfolding d by (rule count_of_success)
  then show ?thesis using pos by (simp add: parseInt_show_int)
qed

lemma increment_count_positive:
  assumes N: "count_of ln = Some N" and pos: "0 < N" and bound: "N + 1 < 2 ^ 53"
  shows "count_of (increment_line ln) = Some (N + 1)"
proof (cases "exec (success_rx True) ln")
  case (Some r)
  obtain pre caps rest where r: "r = (pre, caps, rest)" by (cases r) auto
  from exec_success_shape[OF Some[unfolded r]] obtain c where
    c: "caps = [c]" "is_number True c"
    by auto
  have e: "exec (success_rx True) ln = Some (pre, [c], rest)" using Some r c(1) by simp
  have Nc: "N = parseInt c" using count_of_success[OF e] N by simp
  from c(2) consider "is_number False c" | d where "c = 45 # d" "is_number False d"
    unfolding is_number_signed by blast
  then show ?thesis
  proof cases
    case 1
    show ?thesis using increment_unsigned_success[OF e 1] Nc by simp
  next
    case 2
    then show ?thesis using parseInt_minus[OF 2(2)] Nc pos by simp
  qed
next
  case None
  show ?thesis
  proof (cases "exec (bracket_rx True) ln")
    case None
    then have "count_of ln = None"
      using \<open>exec (success_rx True) ln = None\<close>
      by (simp add: count_of_def capture1_def rx_success_eq rx_bracket_count_eq)
    then show ?thesis using N by simp
  next
    case (Some r)
    obtain pre caps rest where r: "r = (pre, caps, rest)" by (cases r) auto
    from exec_bracket_shape[OF Some[unfolded r]] obtain c where
      c: "caps = [c]" "is_number True c"
      by auto
    have e: "exec (bracket_rx True) ln = Some (pre, [c], rest)" using Some r c(1) by simp
    have Nc: "N = parseInt c" using count_of_bracket[OF None e] N by simp
    from c(2) consider "is_number False c" | d where "c = 45 # d" "is_number False d"
      unfolding is_number_signed by blast
    then show ?thesis
    proof cases
      case 1
      show ?thesis using increment_unsigned_bracket[OF None e 1] Nc by simp
    next
      case 2
      then show ?thesis using parseInt_minus[OF 2(2)] Nc pos by simp
    qed
  qed
qed

section \<open>Reading the streak annotations back\<close>

text \<open>
  A persisted streak update writes the new streak and the larger of the new streak and
  the max-streak read from the line (\<open>streak_update_line\<close>). When the line without its
  old properties has no streak and no max-streak annotation left, these are the values
  read from the written line (\<open>streaks_read_back\<close>).
\<close>

lemma tag_name_streak: "tag_name (js ''[streak::'')"
  by (simp add: tag_name_def js_def canon_def)

lemma tag_name_max_streak: "tag_name (js ''[max-streak::'')"
  by (simp add: tag_name_def js_def canon_def)

lemma rx_streak_eq: "rx_streak = tag_rx (js ''[streak::'') False"
  by (simp add: rx_streak_def tag_rx_def number_rx_def js_def)

lemma rx_max_streak_eq: "rx_max_streak = tag_rx (js ''[max-streak::'') False"
  by (simp add: rx_max_streak_def tag_rx_def number_rx_def js_def)

lemma parseInt_unsigned: 
  assumes "is_number False c" shows "0 \<le> parseInt c"
proof -
  obtain x d where c: "c = x # d" and d: "list_all is_digit (x # d)"
    using assms by (cases c) (auto simp: is_number_unsigned)
  have "x \<noteq> 45" using d not_digit_45 by auto
  then have "parseInt c = digits_value c"
    using takeWhile_all[OF d] c by (simp add: parseInt_def)
  then show ?thesis using digits_value_nonneg[OF d] c by simp
qed

lemma capture1_tag_nonneg:
  assumes "capture1 (tag_rx l False) s = Some c"
  shows "0 \<le> parseInt c"
proof -
  obtain pre caps rest where e: "exec (tag_rx l False) s = Some (pre, caps, rest)"
    using assms by (cases "exec (tag_rx l False) s") (auto simp: capture1_def)
  from exec_tag_shape[OF e] obtain c' where "caps = [c']" "is_number False c'"
    by blast
  then show ?thesis using assms e parseInt_unsigned by (simp add: capture1_def)
qed

lemma parseTask_streak_fields:
  "parseTask ln path lineNumber = Some t \<Longrightarrow>
     currentStreak t = map_option parseInt (capture1 rx_streak ln)
     \<and> maxStreak t = map_option parseInt (capture1 rx_max_streak ln)"
  by (auto simp: parseTask_def Let_def bool_is_undefined_def)

lemma parseTask_streaks_nonneg:
  assumes "parseTask ln path lineNumber = Some t"
  shows "0 \<le> or_zero (currentStreak t) \<and> 0 \<le> or_zero (maxStreak t)"
proof -
  have a: "0 \<le> or_zero (map_option parseInt (capture1 (tag_rx l False) ln))" for l
    using capture1_tag_nonneg[of l ln]
    by (cases "capture1 (tag_rx l False) ln") auto
  show ?thesis
    using parseTask_streak_fields[OF assms] a[of "js ''[streak::''"] a[of "js ''[max-streak::''"]
    by (simp add: rx_streak_eq rx_max_streak_eq)
qed

lemma newStreak_nonneg:
  "0 \<le> cur \<Longrightarrow> 0 \<le> newStreak (calculateStreakFromDates today yesterday d s cur)"
  by (simp add: calculateStreakFromDates_def)

lemma streak_read_back:
  assumes H: "\<not> test rx_streak B" and n: "0 \<le> n"
  shows "capture1 rx_streak (B @ streak_suffix n m T) = Some (show_int n)"
proof -
  let ?r = "tag_rx (js ''[streak::'') False"
  let ?rest = "js '' [max-streak::'' @ show_int m @ js '']'' @ js '' [last-streak-date::'' @ T @ js '']''"
  have "\<forall>i\<le>length B. rmatch ?r (drop i B) = []"
    using H by (simp add: test_def exec_None_iff rx_streak_eq)
  then have nb: "\<forall>i<length B. rmatch ?r (drop i B @ []) = []" by simp
  have e: "B @ streak_suffix n m T = B @ 32 # js ''[streak::'' @ show_int n @ 93 # ?rest"
    by (simp add: streak_suffix_def js_def)
  have "exec ?r (B @ 32 # js ''[streak::'' @ show_int n @ 93 # ?rest)
      = Some (B @ [32], [show_int n], ?rest)"
    by (rule leftmost_tag_after_space[OF tag_name_streak nb refl show_int_number[OF n]])
  then show ?thesis unfolding e by (simp add: capture1_def rx_streak_eq)
qed

lemma max_streak_read_back:
  assumes H: "\<not> test rx_max_streak B" and n: "0 \<le> n" and m: "0 \<le> m"
  shows "capture1 rx_max_streak (B @ streak_suffix n m T) = Some (show_int m)"
proof -
  let ?r = "tag_rx (js ''[max-streak::'') False"
  let ?M = "js ''streak::'' @ show_int n @ [93]"
  let ?u = "B @ 32 # 91 # ?M"
  let ?rest = "js '' [last-streak-date::'' @ T @ js '']''"
  note l = tag_name_max_streak
  have nbB: "\<forall>i\<le>length B. rmatch ?r (drop i B) = []"
    using H by (simp add: test_def exec_None_iff rx_max_streak_eq)
  have M91: "91 \<notin> set ?M"
    using number_chars[OF show_int_number[OF n, of False]] by (auto simp: js_def)
  have nb: "\<forall>i<length ?u. rmatch ?r (drop i ?u @ []) = []"
  proof (intro allI impI)
    fix i assume i: "i < length ?u"
    have lu: "length ?u = length B + 2 + length ?M" by simp
    have "i < length B \<or> i = length B \<or> i = Suc (length B)
        \<or> (i = length B + 2 + (i - length B - 2) \<and> i - length B - 2 < length ?M)"
      using i lu by arith
    then consider "i < length B" | "i = length B" | "i = Suc (length B)"
      | j where "i = length B + 2 + j" "j < length ?M"
      by blast
    then show "rmatch ?r (drop i ?u @ []) = []"
    proof cases
      case 1
      show ?thesis
      proof (rule ccontr)
        assume "rmatch ?r (drop i ?u @ []) \<noteq> []"
        then have "rmatch ?r (drop i B @ 32 # (91 # ?M)) \<noteq> []"
          using 1 by simp
        from tag_stable[OF l this] 1 obtain c' a' where
          "\<forall>w. rmatch ?r (drop i B @ w) = [([c'], a' @ w)]"
          by auto
        from this[rule_format, of "[]"] show False using nbB 1 by simp
      qed
    next
      case 2
      then have "drop i ?u @ [] = 32 # 91 # ?M" by simp
      then show ?thesis using tag_first_char[OF l, of False 32 "91 # ?M"] by auto
    next
      case 3
      then have "drop i ?u @ [] = 91 # ?M" by simp
      moreover have "rmatch ?r (91 # ?M) = []"
        by (simp add: rmatch_tag_rx Let_def js_def canon_def)
      ultimately show ?thesis by simp
    next
      case 4
      have "drop (length B + 2 + j) (B @ x # y # M) = drop j M" for x y and M :: jsstring
        by simp
      then have "drop i ?u @ [] = drop j ?M"
        unfolding 4(1) by (simp only: append_Nil2)
      then have d: "drop i ?u @ [] = (?M ! j) # drop (Suc j) ?M"
        by (simp only: Cons_nth_drop_Suc[OF 4(2)])
      have "?M ! j \<noteq> 91" using M91 4(2) nth_mem by metis
      then show ?thesis unfolding d using tag_first_char[OF l, of False "?M ! j" "drop (Suc j) ?M"] by auto
    qed
  qed
  have e: "B @ streak_suffix n m T = ?u @ 32 # js ''[max-streak::'' @ show_int m @ 93 # ?rest"
    by (simp add: streak_suffix_def js_def)
  have "exec ?r (?u @ 32 # js ''[max-streak::'' @ show_int m @ 93 # ?rest)
      = Some (?u @ [32], [show_int m], ?rest)"
    by (rule leftmost_tag_after_space[OF l nb refl show_int_number[OF m]])
  then show ?thesis unfolding e by (simp add: capture1_def rx_max_streak_eq)
qed

lemma streaks_read_back:
  assumes "\<not> test rx_streak B" and "\<not> test rx_max_streak B"
    and "0 \<le> n" and "0 \<le> m"
    and "parseTask (B @ streak_suffix n m T) path lineNumber = Some t"
  shows "currentStreak t = Some n \<and> maxStreak t = Some m"
  using parseTask_streak_fields[OF assms(5)] streak_read_back[OF assms(1,3)]
    max_streak_read_back[OF assms(2,3,4)] parseInt_show_int assms(3,4)
  by simp

lemma streak_update_line:
  assumes "v filePath = Some text"
    and "line_at (split_lines text) (lineNumber - 1) = Some ln"
    and "ln \<noteq> []"
    and "trim ln = trim originalLine"
    and "parseTask ln filePath lineNumber = Some task"
    and "r = calculateStreakFromDates today yesterday (lastDoneDate task)
               (lastStreakDate task) (or_zero (currentStreak task))"
    and "shouldUpdate r"
    and "or_zero (currentStreak task) + 1 < 2 ^ 53"
    and "or_zero (maxStreak task) < 2 ^ 53"
  shows "markHabitTaskDoneWithDate True today yesterday v filePath lineNumber originalLine =
           (v(filePath \<mapsto> join_lines ((split_lines text)[nat (lineNumber - 1) :=
               with_last_done today ln
               @ streak_suffix (newStreak r) (max (or_zero (maxStreak task)) (newStreak r)) today])),
            HabitCompleted (newStreak r))"
  using assms(1-7) line_at_nth[OF assms(2)]
  by (simp add: markHabitTaskDoneWithDate_def Let_def falsy_def max.commute)

section \<open>The fields of a parsed line\<close>












section \<open>The streak policy\<close>

text \<open>
  C1. For every last-done date, last-streak date, current streak, today and yesterday,
  \<open>calculateStreakFromDates\<close> returns what the six-rule first-match policy returns:
  \<open>{0, false}\<close> when the last-done date is absent (undefined, or the empty string, which
  JavaScript treats alike), \<open>{currentStreak, false}\<close> when both dates are today,
  \<open>{currentStreak + 1, true}\<close> when done today and the streak date is yesterday,
  \<open>{1, true}\<close> when done today with any other streak date, \<open>{currentStreak, false}\<close>
  when both dates are yesterday, and \<open>{0, true}\<close> in every remaining case.
\<close>

theorem calculateStreakFromDates_policy:
  "calculateStreakFromDates today yesterday lastDone lastStreak cur =
     updateStreak_policy lastDone lastStreak cur today yesterday"
  by (simp add: calculateStreakFromDates_def updateStreak_policy_def)

section \<open>Parsing\<close>

text \<open>
  C2. \<open>parseTask\<close> on the line \<open>- [ ] Buy milk\<close>, which carries no importance or
  urgency signal, no habit type, no accumulated marker, no scheduled date, no start date
  and no attribute name: the result is not absent but a task record, with importance and
  urgency low. The guard meant to return nothing compares two booleans with
  \<open>undefined\<close>, which is never true.
\<close>

theorem parseTask_plain_line:
  "parseTask (js ''- [ ] Buy milk'') (js ''notes.md'') 1 =
     Some \<lparr> content = js ''- [ ] Buy milk'', importance = Low, urgency = Low,
            durationMinutes = 0, file_path = js ''notes.md'', line = 1, habitType = None,
            accumulated = False, accumulatedCount = None, lastDoneDate = None,
            taskType = Regular, scheduledDate = None, startDate = None,
            currentStreak = None, maxStreak = None, lastStreakDate = None,
            attributeName = None \<rparr>"
  by code_simp





section \<open>Grouping\<close>

text \<open>
  C4. For every list of task records, \<open>groupTasks\<close> returns four quadrants, one for each
  pair of importance and urgency; the quadrants are pairwise disjoint, their union as a
  multiset is the input, and every quadrant lists its records in the order of the input.
\<close>

theorem groupTasks_partition:
  "urgent_important (groupTasks ts) = filter (\<lambda>t. importance t = High \<and> urgency t = High) ts
   \<and> not_urgent_important (groupTasks ts) = filter (\<lambda>t. importance t = High \<and> urgency t = Low) ts
   \<and> urgent_not_important (groupTasks ts) = filter (\<lambda>t. importance t = Low \<and> urgency t = High) ts
   \<and> neither (groupTasks ts) = filter (\<lambda>t. importance t = Low \<and> urgency t = Low) ts
   \<and> mset (urgent_important (groupTasks ts)) + mset (not_urgent_important (groupTasks ts))
       + mset (urgent_not_important (groupTasks ts)) + mset (neither (groupTasks ts)) = mset ts
   \<and> set (urgent_important (groupTasks ts)) \<inter> set (not_urgent_important (groupTasks ts)) = {}
   \<and> set (urgent_important (groupTasks ts)) \<inter> set (urgent_not_important (groupTasks ts)) = {}
   \<and> set (urgent_important (groupTasks ts)) \<inter> set (neither (groupTasks ts)) = {}
   \<and> set (not_urgent_important (groupTasks ts)) \<inter> set (urgent_not_important (groupTasks ts)) = {}
   \<and> set (not_urgent_important (groupTasks ts)) \<inter> set (neither (groupTasks ts)) = {}
   \<and> set (urgent_not_important (groupTasks ts)) \<inter> set (neither (groupTasks ts)) = {}
   \<and> subseq (urgent_important (groupTasks ts)) ts
   \<and> subseq (not_urgent_important (groupTasks ts)) ts
   \<and> subseq (urgent_not_important (groupTasks ts)) ts
   \<and> subseq (neither (groupTasks ts)) ts"
proof -
  have un: "mset (filter (\<lambda>t. importance t = High \<and> urgency t = High) ts)
      + mset (filter (\<lambda>t. importance t = High \<and> urgency t = Low) ts)
      + mset (filter (\<lambda>t. importance t = Low \<and> urgency t = High) ts)
      + mset (filter (\<lambda>t. importance t = Low \<and> urgency t = Low) ts) = mset ts"
  proof (induction ts)
    case Nil
    show ?case by simp
  next
    case (Cons t ts)
    show ?case
      using Cons.IH by (cases "importance t"; cases "urgency t") simp_all
  qed
  show ?thesis
    unfolding groupTasks_def using un by auto
qed

section \<open>Completing a habit\<close>

text \<open>
  C3. A habit line that already carries today's last-done date, a streak of 5, a
  max-streak of 5 and today's last-streak date is completed again on the same day. The
  streak policy answers \<open>{5, false}\<close>, and the line that is written back has lost its
  three streak annotations: they are removed before the policy is consulted and are put
  back only when it answers true.
\<close>

theorem second_completion_removes_streak:
  "calculateStreakFromDates (js ''2025-06-08'') (js ''2025-06-07'')
       (Some (js ''2025-06-08'')) (Some (js ''2025-06-08'')) 5
     = \<lparr> newStreak = 5, shouldUpdate = False \<rparr>
   \<and> (case markHabitTaskDoneWithDate True (js ''2025-06-08'') (js ''2025-06-07'')
          [js ''habits.md'' \<mapsto> js ''- [ ] Run [habit::daily] [last-done::2025-06-08] [streak::5] [max-streak::5] [last-streak-date::2025-06-08]'']
          (js ''habits.md'') 1
          (js ''- [ ] Run [habit::daily] [last-done::2025-06-08] [streak::5] [max-streak::5] [last-streak-date::2025-06-08]'')
        of (v, n) \<Rightarrow> (v (js ''habits.md''), n))
     = (Some (js ''- [ ] Run [habit::daily] [last-done::2025-06-08]''), HabitMarkedForToday)"
  by code_simp

text \<open>
  C9. Three completions of one habit on the same day, 2025-06-08. The line starts with a
  streak of 4, a max-streak of 9 and the day before as last-streak date. The first
  completion persists a streak update and writes \<open>[streak::5] [max-streak::9]\<close>. The
  second finds today as last-streak date, the policy answers \<open>{5, false}\<close>, and the line
  is written without its streak annotations. The third finds no streak annotation, the
  policy answers \<open>{1, true}\<close>, and the update writes \<open>[streak::1] [max-streak::1]\<close>:
  from one persisted streak update to the next the max-streak of the line has fallen
  from 9 to 1.
\<close>

theorem max_streak_falls_after_repeat:
  "(case markHabitTaskDoneWithDate True (js ''2025-06-08'') (js ''2025-06-07'')
          [js ''habits.md'' \<mapsto> js ''- [ ] Run [habit::daily] [last-done::2025-06-08] [streak::4] [max-streak::9] [last-streak-date::2025-06-07]'']
          (js ''habits.md'') 1
          (js ''- [ ] Run [habit::daily] [last-done::2025-06-08] [streak::4] [max-streak::9] [last-streak-date::2025-06-07]'')
    of (v1, n1) \<Rightarrow>
      (case markHabitTaskDoneWithDate True (js ''2025-06-08'') (js ''2025-06-07'') v1
            (js ''habits.md'') 1
            (js ''- [ ] Run [habit::daily] [last-done::2025-06-08] [streak::5] [max-streak::9] [last-streak-date::2025-06-08]'')
       of (v2, n2) \<Rightarrow>
         (case markHabitTaskDoneWithDate True (js ''2025-06-08'') (js ''2025-06-07'') v2
               (js ''habits.md'') 1 (js ''- [ ] Run [habit::daily] [last-done::2025-06-08]'')
          of (v3, n3) \<Rightarrow> (v1 (js ''habits.md''), n1, v2 (js ''habits.md''), n2,
                            v3 (js ''habits.md''), n3))))
     = (Some (js ''- [ ] Run [habit::daily] [last-done::2025-06-08] [streak::5] [max-streak::9] [last-streak-date::2025-06-08]''),
        HabitCompleted 5,
        Some (js ''- [ ] Run [habit::daily] [last-done::2025-06-08]''),
        HabitMarkedForToday,
        Some (js ''- [ ] Run [habit::daily] [last-done::2025-06-08] [streak::1] [max-streak::1] [last-streak-date::2025-06-08]''),
        HabitCompleted 1)
   \<and> map_option maxStreak
        (parseTask (js ''- [ ] Run [habit::daily] [last-done::2025-06-08] [streak::5] [max-streak::9] [last-streak-date::2025-06-08]'')
           (js ''habits.md'') 1)
     = Some (Some 9)
   \<and> map_option maxStreak
        (parseTask (js ''- [ ] Run [habit::daily] [last-done::2025-06-08] [streak::1] [max-streak::1] [last-streak-date::2025-06-08]'')
           (js ''habits.md'') 1)
     = Some (Some 1)"
  by code_simp

section \<open>Marking a task done\<close>

text \<open>
  C5. \<open>_markEisenhowerTaskDone\<close> is asked to complete the line \<open>- [ ] Call Bob
  [importance::high]\<close> at line 1 of a file whose line 1 is by now \<open>- [ ] Buy milk
  [importance::high]\<close>. The expected original content is not compared with the target
  line: the other task is marked done, the file is rewritten, and the call reports success.
\<close>

theorem markEisenhowerTaskDone_other_line:
  "(case markEisenhowerTaskDone [js ''todo.md'' \<mapsto> js ''- [ ] Buy milk [importance::high]'']
          (js ''todo.md'') 1 (js ''- [ ] Call Bob [importance::high]'')
    of (v, n, b) \<Rightarrow> (v (js ''todo.md''), n, b))
   = (Some (js ''- [x] Buy milk [importance::high]''), TaskMarkedComplete, Some True)"
  by code_simp

section \<open>The accumulated counter\<close>

text \<open>
  C6. A line with the counter \<open>[success::-3]\<close> parses with \<open>accumulatedCount = -3\<close>.
  The increment passes its prefix check, appends \<open>[success::1]\<close> and leaves the old
  annotation in place; parsing the new line gives \<open>accumulatedCount = -3\<close> again, not
  \<open>-2\<close>.
\<close>

theorem increment_negative_counter:
  "map_option accumulatedCount
      (parseTask (js ''- [ ] Skip dessert [accumulated::true] [success::-3]'') (js ''habits.md'') 1)
     = Some (Some (- 3))
   \<and> (case incrementAccumulatedTask
            [js ''habits.md'' \<mapsto> js ''- [ ] Skip dessert [accumulated::true] [success::-3]'']
            (js ''habits.md'') 1 (js ''- [ ] Skip dessert [accumulated::true] [success::-3]'')
        of (v, n) \<Rightarrow> (v (js ''habits.md''), n))
     = (Some (js ''- [ ] Skip dessert [accumulated::true] [success::-3] [success::1]''),
        CountIncremented)
   \<and> map_option accumulatedCount
        (parseTask (js ''- [ ] Skip dessert [accumulated::true] [success::-3] [success::1]'')
           (js ''habits.md'') 1)
     = Some (Some (- 3))"
  by code_simp

text \<open>
  C7. When the file and the line are found and the prefixes match, the decrement writes
  the line rewritten by \<open>decrement_line\<close>; and for every line whose counter, as
  \<open>parseTask\<close> reads it, is a number \<open>N\<close> that is not negative, the counter read from
  the rewritten line is \<open>max 0 (N - 1)\<close>, which is never below 0. The counter, and the
  number that the decrement itself reads from the line, are below \<open>2 ^ 53\<close>, the range
  on which JavaScript's numbers are the integers.
\<close>

theorem decrement_floors_at_zero:
  assumes "v filePath = Some text"
    and "line_at (split_lines text) (lineNumber - 1) = Some ln"
    and "ln \<noteq> []"
    and "prefix (line_prefix originalLine) (line_prefix ln)"
    and "count_of ln = Some N"
    and "0 \<le> N"
    and "N < 2 ^ 53"
    and "\<forall>c. capture1 rx_success_digits ln = Some c \<or> capture1 rx_bracket_digits ln = Some c
           \<longrightarrow> parseInt c < 2 ^ 53"
  shows "decrementAccumulatedTask v filePath lineNumber originalLine =
           (v(filePath \<mapsto> join_lines ((split_lines text)[nat (lineNumber - 1) :=
               decrement_line ln])), CountDecremented)
       \<and> count_of (decrement_line ln) = Some (max 0 (N - 1))
       \<and> 0 \<le> max 0 (N - 1)"
  using assms(1-4) line_at_nth[OF assms(2)] decrement_count[OF assms(5,6)]
  by (simp add: decrementAccumulatedTask_def accumulated_mutation_def Let_def falsy_def)

theorem decrement_floors_at_zero_witness:
  "count_of (js ''- [ ] Meditate [accumulated::true] [success::7]'') = Some 7
   \<and> decrementAccumulatedTask
        [js ''habits.md'' \<mapsto> js ''- [ ] Meditate [accumulated::true] [success::7]'']
        (js ''habits.md'') 1 (js ''- [ ] Meditate [accumulated::true] [success::7]'')
     = ([js ''habits.md'' \<mapsto> js ''- [ ] Meditate [accumulated::true] [success::6]''],
        CountDecremented)
   \<and> count_of (js ''- [ ] Meditate [accumulated::true] [success::6]'') = Some 6
   \<and> count_of (js ''- [ ] Stretch [accumulated::true] [0]'') = Some 0
   \<and> decrementAccumulatedTask
        [js ''habits.md'' \<mapsto> js ''- [ ] Stretch [accumulated::true] [0]'']
        (js ''habits.md'') 1 (js ''- [ ] Stretch [accumulated::true] [0]'')
     = ([js ''habits.md'' \<mapsto> js ''- [ ] Stretch [accumulated::true] [success::0]''],
        CountDecremented)
   \<and> count_of (js ''- [ ] Stretch [accumulated::true] [success::0]'') = Some 0"
proof -
  let ?p = "js ''habits.md''"
  let ?L = "js ''- [ ] Meditate [accumulated::true] [success::7]''"
  let ?M = "js ''- [ ] Stretch [accumulated::true] [0]''"
  have h1: "[?p \<mapsto> ?L] ?p = Some ?L" by simp
  have h2: "line_at (split_lines ?L) (1 - 1) = Some ?L" by code_simp
  have h3: "?L \<noteq> []" by code_simp
  have h4: "prefix (line_prefix ?L) (line_prefix ?L)" by simp
  have h5: "count_of ?L = Some 7" by code_simp
  have h6: "(0::int) \<le> 7" by simp
  have h7: "(7::int) < 2 ^ 53" by simp
  have p7: "parseInt (js ''7'') = 7" by code_simp
  have cs: "capture1 rx_success_digits ?L = Some (js ''7'')" by code_simp
  have cb: "capture1 rx_bracket_digits ?L = None" by code_simp
  have h8: "\<forall>c. capture1 rx_success_digits ?L = Some c \<or> capture1 rx_bracket_digits ?L = Some c
      \<longrightarrow> parseInt c < 2 ^ 53"
    using p7 by (simp add: cs cb)
  have sl: "split_lines ?L = [?L]" by code_simp
  have dl: "decrement_line ?L = js ''- [ ] Meditate [accumulated::true] [success::6]''"
    by code_simp
  have a: "decrementAccumulatedTask [?p \<mapsto> ?L] ?p 1 ?L =
           ([?p \<mapsto> ?L](?p \<mapsto> join_lines ((split_lines ?L)[nat (1 - 1) :=
               decrement_line ?L])), CountDecremented)
       \<and> count_of (decrement_line ?L) = Some (max 0 (7 - 1))
       \<and> 0 \<le> max 0 ((7::int) - 1)"
    by (rule decrement_floors_at_zero) (rule h1 h2 h3 h4 h5 h6 h7 h8)+
  have k1: "[?p \<mapsto> ?M] ?p = Some ?M" by simp
  have k2: "line_at (split_lines ?M) (1 - 1) = Some ?M" by code_simp
  have k3: "?M \<noteq> []" by code_simp
  have k4: "prefix (line_prefix ?M) (line_prefix ?M)" by simp
  have k5: "count_of ?M = Some 0" by code_simp
  have k6: "(0::int) \<le> 0" by simp
  have k7: "(0::int) < 2 ^ 53" by simp
  have p0: "parseInt (js ''0'') = 0" by code_simp
  have ks: "capture1 rx_success_digits ?M = None" by code_simp
  have kb: "capture1 rx_bracket_digits ?M = Some (js ''0'')" by code_simp
  have k8: "\<forall>c. capture1 rx_success_digits ?M = Some c \<or> capture1 rx_bracket_digits ?M = Some c
      \<longrightarrow> parseInt c < 2 ^ 53"
    using p0 by (simp add: ks kb)
  have sm: "split_lines ?M = [?M]" by code_simp
  have dm: "decrement_line ?M = js ''- [ ] Stretch [accumulated::true] [success::0]''"
    by code_simp
  have b: "decrementAccumulatedTask [?p \<mapsto> ?M] ?p 1 ?M =
           ([?p \<mapsto> ?M](?p \<mapsto> join_lines ((split_lines ?M)[nat (1 - 1) :=
               decrement_line ?M])), CountDecremented)
       \<and> count_of (decrement_line ?M) = Some (max 0 (0 - 1))
       \<and> 0 \<le> max 0 ((0::int) - 1)"
    by (rule decrement_floors_at_zero) (rule k1 k2 k3 k4 k5 k6 k7 k8)+
  have a': "decrementAccumulatedTask [?p \<mapsto> ?L] ?p 1 ?L
      = ([?p \<mapsto> js ''- [ ] Meditate [accumulated::true] [success::6]''], CountDecremented)
      \<and> count_of (js ''- [ ] Meditate [accumulated::true] [success::6]'') = Some 6"
    using a by (simp only: sl dl) simp
  have b': "decrementAccumulatedTask [?p \<mapsto> ?M] ?p 1 ?M
      = ([?p \<mapsto> js ''- [ ] Stretch [accumulated::true] [success::0]''], CountDecremented)
      \<and> count_of (js ''- [ ] Stretch [accumulated::true] [success::0]'') = Some 0"
    using b by (simp only: sm dm) simp
  show ?thesis using a' b' h5 k5 by blast
qed

text \<open>
  C10. When the file and the line are found, the prefixes match, and the line contains
  neither \<open>[success::N]\<close> with unsigned digits nor a bracketed unsigned number at its
  end, the increment succeeds and writes the line, without its trailing white space,
  followed by \<open>[success::1]\<close>, and the decrement succeeds and writes it followed by
  \<open>[success::0]\<close>. The witness is a line whose counter is \<open>[success::-3]\<close>: the
  negative annotation stays in place beside the new one.
\<close>

theorem append_when_no_unsigned_counter:
  assumes "v filePath = Some text"
    and "line_at (split_lines text) (lineNumber - 1) = Some ln"
    and "ln \<noteq> []"
    and "prefix (line_prefix originalLine) (line_prefix ln)"
    and "\<not> test rx_success_test ln"
    and "\<not> test rx_bracket_test ln"
  shows "incrementAccumulatedTask v filePath lineNumber originalLine =
           (v(filePath \<mapsto> join_lines ((split_lines text)[nat (lineNumber - 1) :=
               trimEnd ln @ js '' [success::1]''])), CountIncremented)
       \<and> decrementAccumulatedTask v filePath lineNumber originalLine =
           (v(filePath \<mapsto> join_lines ((split_lines text)[nat (lineNumber - 1) :=
               trimEnd ln @ js '' [success::0]''])), CountDecremented)"
proof -
  have inc: "increment_line ln = trimEnd ln @ js '' [success::1]''"
    using assms(5,6) by (simp add: increment_line_def)
  have dec: "decrement_line ln = trimEnd ln @ js '' [success::0]''"
    using assms(5,6) by (simp add: decrement_line_def test_bracket_digits)
  show ?thesis
    using assms(1-4) line_at_nth[OF assms(2)] inc dec
    by (simp add: incrementAccumulatedTask_def decrementAccumulatedTask_def
        accumulated_mutation_def Let_def falsy_def)
qed

theorem append_when_no_unsigned_counter_witness:
  "\<not> test rx_success_test (js ''- [ ] Skip dessert [accumulated::true] [success::-3]'')
   \<and> \<not> test rx_bracket_test (js ''- [ ] Skip dessert [accumulated::true] [success::-3]'')
   \<and> incrementAccumulatedTask
        [js ''habits.md'' \<mapsto> js ''- [ ] Skip dessert [accumulated::true] [success::-3]'']
        (js ''habits.md'') 1 (js ''- [ ] Skip dessert [accumulated::true]'')
     = ([js ''habits.md'' \<mapsto> js ''- [ ] Skip dessert [accumulated::true] [success::-3] [success::1]''],
        CountIncremented)
   \<and> decrementAccumulatedTask
        [js ''habits.md'' \<mapsto> js ''- [ ] Skip dessert [accumulated::true] [success::-3]'']
        (js ''habits.md'') 1 (js ''- [ ] Skip dessert [accumulated::true]'')
     = ([js ''habits.md'' \<mapsto> js ''- [ ] Skip dessert [accumulated::true] [success::-3] [success::0]''],
        CountDecremented)"
proof -
  let ?p = "js ''habits.md''"
  let ?L = "js ''- [ ] Skip dessert [accumulated::true] [success::-3]''"
  let ?O = "js ''- [ ] Skip dessert [accumulated::true]''"
  have h1: "[?p \<mapsto> ?L] ?p = Some ?L" by simp
  have h2: "line_at (split_lines ?L) (1 - 1) = Some ?L" by code_simp
  have h3: "?L \<noteq> []" by code_simp
  have h4: "prefix (line_prefix ?O) (line_prefix ?L)" by code_simp
  have h5: "\<not> test rx_success_test ?L" by code_simp
  have h6: "\<not> test rx_bracket_test ?L" by code_simp
  have sl: "split_lines ?L = [?L]" by code_simp
  have i: "trimEnd ?L @ js '' [success::1]''
      = js ''- [ ] Skip dessert [accumulated::true] [success::-3] [success::1]''" by code_simp
  have d: "trimEnd ?L @ js '' [success::0]''
      = js ''- [ ] Skip dessert [accumulated::true] [success::-3] [success::0]''" by code_simp
  have m: "incrementAccumulatedTask [?p \<mapsto> ?L] ?p 1 ?O =
           ([?p \<mapsto> ?L](?p \<mapsto> join_lines ((split_lines ?L)[nat (1 - 1) :=
               trimEnd ?L @ js '' [success::1]''])), CountIncremented)
       \<and> decrementAccumulatedTask [?p \<mapsto> ?L] ?p 1 ?O =
           ([?p \<mapsto> ?L](?p \<mapsto> join_lines ((split_lines ?L)[nat (1 - 1) :=
               trimEnd ?L @ js '' [success::0]''])), CountDecremented)"
    by (rule append_when_no_unsigned_counter) (rule h1 h2 h3 h4 h5 h6)+
  show ?thesis using m h5 h6 by (simp only: sl i d) simp
qed

end
